theory Spec2Isabelle
  imports
    Complex_Main
    "HOL-Library.AList"
    "HOL-Library.Char_ord"
    "HOL-Library.List_Lexorder"
    "HOL-Library.Log_Nat"
    "HOL-Library.Multiset"
    "HOL-Library.Product_Lexorder"
begin

section \<open>Python values\<close>

text \<open>
  The evaluation engine of \<^verbatim>\<open>training/finetune/evaluate.py\<close> and the progress monitor of
  \<^verbatim>\<open>training/train_progress.py\<close> are embedded as HOL functions. Text is a \<open>string\<close> of bytes
  (ASCII; a code point beyond ASCII is its UTF-8 bytes). Python's \<open>float\<close> is modelled by
  \<open>real\<close>. Rounding is modelled where the result depends on the order of the operations, in
  the sum that the aggregator takes over the coordinate errors; elsewhere an operation on
  floats is the exact operation on real numbers. Overflow and the non-finite values are
  outside the model, and a text that makes Python produce a non-finite float (the JSON
  literals \<open>NaN\<close>, \<open>Infinity\<close>, \<open>-Infinity\<close>, the \<open>float()\<close> strings \<open>inf\<close>, \<open>infinity\<close>,
  \<open>nan\<close>) is treated as malformed. Also outside the model: a character beyond ASCII counts
  neither as whitespace nor as a digit (Python strips the no-break space and lets \<^verbatim>\<open>\d\<close> match
  every decimal digit); the recursion limit of the interpreter on deeply nested JSON; the
  \<open>OverflowError\<close> of float arithmetic; and the rendering of the tables, where the \<open>rich\<close>
  library refuses a cell that is a number or holds markup it cannot parse.
  Python's \<open>int\<close> is \<open>int\<close>. An exception that leaves a function is a value \<open>Inl e\<close>.
\<close>

datatype py_error =
  AttributeError | TypeError | ValueError | KeyError | IndexError | ZeroDivisionError

text \<open>
  What \<open>json.loads\<close> returns: \<open>JNull\<close> is Python's \<open>None\<close>, \<open>JObj\<close> a \<open>dict\<close> in insertion
  order with distinct keys, \<open>JArr\<close> a \<open>list\<close>.
\<close>

datatype json =
    JNull
  | JBool bool
  | JInt int
  | JFloat real
  | JStr string
  | JArr "json list"
  | JObj "(string \<times> json) list"

text \<open>Truth value of a Python object, as \<open>if x:\<close> and \<open>x and y\<close> test it.\<close>

fun truthy :: "json \<Rightarrow> bool" where
  "truthy JNull = False"
| "truthy (JBool b) = b"
| "truthy (JInt i) = (i \<noteq> 0)"
| "truthy (JFloat r) = (r \<noteq> 0)"
| "truthy (JStr s) = (s \<noteq> [])"
| "truthy (JArr xs) = (xs \<noteq> [])"
| "truthy (JObj kvs) = (kvs \<noteq> [])"

subsection \<open>Strings\<close>

text \<open>\<open>str.isspace\<close> on ASCII, and \<open>str.strip()\<close>.\<close>

definition is_space :: "char \<Rightarrow> bool" where
  "is_space c = (c \<in> set [CHR 0x09, CHR 0x0A, CHR 0x0B, CHR 0x0C, CHR 0x0D,
                              CHR 0x1C, CHR 0x1D, CHR 0x1E, CHR 0x1F, CHR 0x20])"

definition strip :: "string \<Rightarrow> string" where
  "strip s = rev (dropWhile is_space (rev (dropWhile is_space s)))"

definition is_digit :: "char \<Rightarrow> bool" where
  "is_digit c = (c \<in> set ''0123456789'')"

definition digit_val :: "char \<Rightarrow> nat" where
  "digit_val c = of_char c - 48"

definition nat_of_digits :: "string \<Rightarrow> nat" where
  "nat_of_digits ds = foldl (\<lambda>a c. 10 * a + digit_val c) 0 ds"

text \<open>The decimal \<open>m * 10^e\<close>.\<close>

definition scale10 :: "int \<Rightarrow> int \<Rightarrow> real" where
  "scale10 m e = (if 0 \<le> e then of_int m * 10 ^ nat e else of_int m / 10 ^ nat (- e))"

subsection \<open>\<open>float()\<close> of a string\<close>

text \<open>
  \<open>float(s)\<close> for a \<open>str\<close>: surrounding C whitespace is dropped, then an optional sign, digits
  with an optional point and an optional exponent; an underscore may stand between two
  digits. \<open>None\<close> is the \<open>ValueError\<close>.
\<close>

definition c_space :: "char \<Rightarrow> bool" where
  "c_space c = (c \<in> set [CHR 0x09, CHR 0x0A, CHR 0x0B, CHR 0x0C, CHR 0x0D, CHR 0x20])"

fun digitpart :: "string \<Rightarrow> string \<times> string" where
  "digitpart [] = ([], [])"
| "digitpart (c # cs) =
     (if is_digit c then
        (case cs of
           u # d # r \<Rightarrow>
             if u = CHR ''_'' \<and> is_digit d then apfst ((#) c) (digitpart (d # r))
             else apfst ((#) c) (digitpart cs)
         | _ \<Rightarrow> apfst ((#) c) (digitpart cs))
      else ([], c # cs))"

definition take_sign :: "string \<Rightarrow> bool \<times> string" where
  "take_sign s =
     (case s of
        [] \<Rightarrow> (False, s)
      | c # cs \<Rightarrow> if c = CHR ''-'' then (True, cs) else if c = CHR ''+'' then (False, cs) else (False, s))"

definition float_exponent :: "string \<Rightarrow> int option" where
  "float_exponent s =
     (case s of
        [] \<Rightarrow> Some 0
      | c # cs \<Rightarrow>
          if c = CHR ''e'' \<or> c = CHR ''E'' then
            (let (neg, r) = take_sign cs; (ds, rest) = digitpart r in
             if ds \<noteq> [] \<and> rest = []
             then Some (if neg then - int (nat_of_digits ds) else int (nat_of_digits ds))
             else None)
          else None)"

definition float_of_str :: "string \<Rightarrow> real option" where
  "float_of_str s =
     (let t = rev (dropWhile c_space (rev (dropWhile c_space s)));
          (neg, t1) = take_sign t;
          (ip, t2) = digitpart t1;
          (fp, t3) = (case t2 of
                        [] \<Rightarrow> ([], t2)
                      | c # cs \<Rightarrow> if c = CHR ''.'' then digitpart cs else ([], t2))
      in if ip = [] \<and> fp = [] then None
         else (case float_exponent t3 of
                 None \<Rightarrow> None
               | Some e \<Rightarrow>
                   (let m = scale10 (int (nat_of_digits (ip @ fp))) (e - int (length fp))
                    in Some (if neg then - m else m))))"

text \<open>\<open>int(s)\<close> for a \<open>str\<close>, in base 10; \<open>None\<close> is the \<open>ValueError\<close>.\<close>

definition int_of_str :: "string \<Rightarrow> int option" where
  "int_of_str s =
     (let t = rev (dropWhile c_space (rev (dropWhile c_space s)));
          (neg, t1) = take_sign t;
          (ds, rest) = digitpart t1
      in if ds \<noteq> [] \<and> rest = []
         then Some (if neg then - int (nat_of_digits ds) else int (nat_of_digits ds))
         else None)"

subsection \<open>\<open>json.loads\<close>\<close>

definition json_ws :: "char \<Rightarrow> bool" where
  "json_ws c = (c \<in> set [CHR 0x20, CHR 0x09, CHR 0x0A, CHR 0x0D])"

definition skip_ws :: "string \<Rightarrow> string" where
  "skip_ws s = dropWhile json_ws s"

definition hex_val :: "char \<Rightarrow> nat option" where
  "hex_val c =
     (if c \<in> set ''0123456789'' then Some (of_char c - 48)
      else if c \<in> set ''abcdef'' then Some (of_char c - 87)
      else if c \<in> set ''ABCDEF'' then Some (of_char c - 55)
      else None)"

fun decode_uXXXX :: "string \<Rightarrow> nat option" where
  "decode_uXXXX (a # b # c # d # _) =
     (case (hex_val a, hex_val b, hex_val c, hex_val d) of
        (Some x, Some y, Some z, Some w) \<Rightarrow> Some (((x * 16 + y) * 16 + z) * 16 + w)
      | _ \<Rightarrow> None)"
| "decode_uXXXX _ = None"

definition utf8 :: "nat \<Rightarrow> string" where
  "utf8 n =
     (if n < 0x80 then [char_of n]
      else if n < 0x800 then [char_of (0xC0 + n div 64), char_of (0x80 + n mod 64)]
      else if n < 0x10000 then
        [char_of (0xE0 + n div 4096), char_of (0x80 + n div 64 mod 64), char_of (0x80 + n mod 64)]
      else
        [char_of (0xF0 + n div 262144), char_of (0x80 + n div 4096 mod 64),
         char_of (0x80 + n div 64 mod 64), char_of (0x80 + n mod 64)])"

definition simple_escape :: "char \<Rightarrow> char option" where
  "simple_escape c =
     (if c = CHR ''\"'' then Some (CHR ''\"'')
      else if c = CHR 0x5C then Some (CHR 0x5C)
      else if c = CHR ''/'' then Some (CHR ''/'')
      else if c = CHR ''b'' then Some (CHR 0x08)
      else if c = CHR ''f'' then Some (CHR 0x0C)
      else if c = CHR ''n'' then Some (CHR 0x0A)
      else if c = CHR ''r'' then Some (CHR 0x0D)
      else if c = CHR ''t'' then Some (CHR 0x09)
      else None)"

text \<open>A \<open>\uXXXX\<close> escape, the text after \<open>\u\<close> given; a surrogate pair is one code point.\<close>

definition unicode_escape :: "string \<Rightarrow> (string \<times> string) option" where
  "unicode_escape s =
     (case decode_uXXXX s of
        None \<Rightarrow> None
      | Some uni \<Rightarrow>
          (let r = drop 4 s in
           if 0xD800 \<le> uni \<and> uni \<le> 0xDBFF \<and> take 2 r = [CHR 0x5C, CHR ''u''] then
             (case decode_uXXXX (drop 2 r) of
                None \<Rightarrow> None
              | Some uni2 \<Rightarrow>
                  if 0xDC00 \<le> uni2 \<and> uni2 \<le> 0xDFFF
                  then Some (utf8 (0x10000 + ((uni - 0xD800) * 1024 + (uni2 - 0xDC00))), drop 6 r)
                  else Some (utf8 uni, r))
           else Some (utf8 uni, r)))"

lemma unicode_escape_length:
  "unicode_escape s = Some (u, r) \<Longrightarrow> length r \<le> length s"
  by (auto simp: unicode_escape_def Let_def split: option.splits if_splits)

text \<open>The body of a string literal, after its opening quote (strict mode: no control characters).\<close>

function scanstring :: "string \<Rightarrow> (string \<times> string) option" where
  "scanstring [] = None"
| "scanstring (c # cs) =
     (if c = CHR ''\"'' then Some ([], cs)
      else if c = CHR 0x5C then
        (case cs of
           [] \<Rightarrow> None
         | e # es \<Rightarrow>
             if e = CHR ''u'' then
               (case unicode_escape es of
                  None \<Rightarrow> None
                | Some (u, r) \<Rightarrow> map_option (\<lambda>(t, r'). (u @ t, r')) (scanstring r))
             else
               (case simple_escape e of
                  None \<Rightarrow> None
                | Some x \<Rightarrow> map_option (\<lambda>(t, r'). (x # t, r')) (scanstring es)))
      else if of_char c < (32 :: nat) then None
      else map_option (\<lambda>(t, r'). (c # t, r')) (scanstring cs))"
  by pat_completeness auto
termination
  by (relation "measure length") (auto dest: unicode_escape_length)

text \<open>
  A number, \<open>(-?(?:0|[1-9][0-9]*))(\.[0-9]+)?([eE][-+]?[0-9]+)?\<close>: an \<open>int\<close> when it has
  neither fraction nor exponent, a \<open>float\<close> otherwise.
\<close>

definition number_int_part :: "string \<Rightarrow> (string \<times> string) option" where
  "number_int_part s =
     (case s of
        [] \<Rightarrow> None
      | c # cs \<Rightarrow>
          if c = CHR ''0'' then Some ([c], cs)
          else if is_digit c then Some (takeWhile is_digit s, dropWhile is_digit s)
          else None)"

definition number_frac_part :: "string \<Rightarrow> string \<times> string" where
  "number_frac_part s =
     (case s of
        c # d # cs \<Rightarrow>
          if c = CHR ''.'' \<and> is_digit d
          then (takeWhile is_digit (d # cs), dropWhile is_digit (d # cs))
          else ([], s)
      | _ \<Rightarrow> ([], s))"

definition number_exp_part :: "string \<Rightarrow> int option \<times> string" where
  "number_exp_part s =
     (case s of
        [] \<Rightarrow> (None, s)
      | c # cs \<Rightarrow>
          if c = CHR ''e'' \<or> c = CHR ''E'' then
            (let (neg, r) = take_sign cs; ds = takeWhile is_digit r in
             if ds = [] then (None, s)
             else (Some (if neg then - int (nat_of_digits ds) else int (nat_of_digits ds)),
                   dropWhile is_digit r))
          else (None, s))"

definition parse_number :: "string \<Rightarrow> (json \<times> string) option" where
  "parse_number s =
     (let (neg, s1) = (case s of
                         [] \<Rightarrow> (False, s)
                       | c # cs \<Rightarrow> if c = CHR ''-'' then (True, cs) else (False, s))
      in case number_int_part s1 of
           None \<Rightarrow> None
         | Some (ip, r1) \<Rightarrow>
             (let (fp, r2) = number_frac_part r1; (ex, r3) = number_exp_part r2 in
              if fp = [] \<and> ex = None then
                Some (JInt (if neg then - int (nat_of_digits ip) else int (nat_of_digits ip)), r3)
              else
                (let m = scale10 (int (nat_of_digits (ip @ fp)))
                           ((case ex of None \<Rightarrow> 0 | Some e \<Rightarrow> e) - int (length fp))
                 in Some (JFloat (if neg then - m else m), r3))))"

definition starts_with :: "string \<Rightarrow> string \<Rightarrow> bool" where
  "starts_with w s = (take (length w) s = w)"

text \<open>
  The recursive descent of the decoder. The first argument bounds the number of nested
  calls; \<open>json_loads\<close> starts it at twice the length of the text, from where on a larger
  bound gives the same result (\<open>json_loads_fuel\<close> below): the bound is never what makes
  the decoder fail.
\<close>

fun parse_value :: "nat \<Rightarrow> string \<Rightarrow> (json \<times> string) option"
  and parse_members :: "nat \<Rightarrow> (string \<times> json) list \<Rightarrow> string \<Rightarrow> (json \<times> string) option"
  and parse_elements :: "nat \<Rightarrow> json list \<Rightarrow> string \<Rightarrow> (json \<times> string) option"
where
  "parse_value 0 s = None"
| "parse_value (Suc n) s =
     (case s of
        [] \<Rightarrow> None
      | c # cs \<Rightarrow>
          if c = CHR ''\"'' then map_option (\<lambda>(t, r). (JStr t, r)) (scanstring cs)
          else if c = CHR ''{'' then
            (let r = skip_ws cs in
             if starts_with ''}'' r then Some (JObj [], drop 1 r) else parse_members n [] r)
          else if c = CHR ''['' then
            (let r = skip_ws cs in
             if starts_with '']'' r then Some (JArr [], drop 1 r) else parse_elements n [] r)
          else if starts_with ''null'' s then Some (JNull, drop 4 s)
          else if starts_with ''true'' s then Some (JBool True, drop 4 s)
          else if starts_with ''false'' s then Some (JBool False, drop 5 s)
          else parse_number s)"
| "parse_members 0 acc s = None"
| "parse_members (Suc n) acc s =
     (if starts_with ''\"'' s then
        (case scanstring (drop 1 s) of
           None \<Rightarrow> None
         | Some (k, r) \<Rightarrow>
             (let r1 = skip_ws r in
              if starts_with '':'' r1 then
                (case parse_value n (skip_ws (drop 1 r1)) of
                   None \<Rightarrow> None
                 | Some (v, r2) \<Rightarrow>
                     (let r3 = skip_ws r2 in
                      if starts_with '','' r3
                      then parse_members n (AList.update k v acc) (skip_ws (drop 1 r3))
                      else if starts_with ''}'' r3
                      then Some (JObj (AList.update k v acc), drop 1 r3)
                      else None))
              else None))
      else None)"
| "parse_elements 0 acc s = None"
| "parse_elements (Suc n) acc s =
     (case parse_value n s of
        None \<Rightarrow> None
      | Some (v, r) \<Rightarrow>
          (let r1 = skip_ws r in
           if starts_with '','' r1 then parse_elements n (acc @ [v]) (skip_ws (drop 1 r1))
           else if starts_with '']'' r1 then Some (JArr (acc @ [v]), drop 1 r1)
           else None))"

text \<open>\<open>json.loads(s)\<close>; \<open>None\<close> is the \<open>JSONDecodeError\<close>.\<close>

definition json_loads :: "string \<Rightarrow> json option" where
  "json_loads s =
     (case parse_value (2 * length s) (skip_ws s) of
        None \<Rightarrow> None
      | Some (v, r) \<Rightarrow> if skip_ws r = [] then Some v else None)"

section \<open>Regular expressions\<close>

text \<open>
  The fragment of Python's \<open>re\<close> that the patterns of the source use, with its backtracking
  order: \<open>Star\<close> is the greedy \<open>*\<close>, \<open>Lazy\<close> the non-greedy \<open>*?\<close>, \<open>Grp\<close> a capturing group.
  \<open>rmatch r s g k\<close> matches \<open>r\<close> at the start of \<open>s\<close> and hands the captured groups and the
  rest of the text to the continuation \<open>k\<close>; the first alternative that \<open>k\<close> accepts wins.
\<close>

datatype regex =
    Cls "char \<Rightarrow> bool"
  | Lit string
  | Cat regex regex
  | Star regex
  | Lazy regex
  | Grp regex

function rmatch ::
  "regex \<Rightarrow> string \<Rightarrow> string list \<Rightarrow> (string list \<Rightarrow> string \<Rightarrow> 'a option) \<Rightarrow> 'a option"
where
  "rmatch (Cls P) s g k = (case s of [] \<Rightarrow> None | c # cs \<Rightarrow> if P c then k g cs else None)"
| "rmatch (Lit w) s g k = (if take (length w) s = w then k g (drop (length w) s) else None)"
| "rmatch (Cat a b) s g k = rmatch a s g (\<lambda>g' s'. rmatch b s' g' k)"
| "rmatch (Star a) s g k =
     (case rmatch a s g
             (\<lambda>g' s'. if length s' < length s then rmatch (Star a) s' g' k else None) of
        Some r \<Rightarrow> Some r
      | None \<Rightarrow> k g s)"
| "rmatch (Lazy a) s g k =
     (case k g s of
        Some r \<Rightarrow> Some r
      | None \<Rightarrow>
          rmatch a s g
            (\<lambda>g' s'. if length s' < length s then rmatch (Lazy a) s' g' k else None))"
| "rmatch (Grp a) s g k =
     rmatch a s g (\<lambda>g' s'. k (g' @ [take (length s - length s') s]) s')"
  by pat_completeness auto
termination
  by (relation "inv_image (measure size <*lex*> measure length) (\<lambda>(r, s, g, k). (r, s))") auto

declare rmatch.simps(4,5) [simp del]

fun cat_list :: "regex list \<Rightarrow> regex" where
  "cat_list [] = Lit []"
| "cat_list [r] = r"
| "cat_list (r # rs) = Cat r (cat_list rs)"

definition Plus :: "regex \<Rightarrow> regex" where
  "Plus a = Cat a (Star a)"

text \<open>\<open>pattern.search(s)\<close>: the groups of the leftmost match.\<close>

fun search :: "regex \<Rightarrow> string \<Rightarrow> string list option" where
  "search r [] = rmatch r [] [] (\<lambda>g s'. Some g)"
| "search r (c # cs) =
     (case rmatch r (c # cs) [] (\<lambda>g s'. Some g) of
        Some g \<Rightarrow> Some g
      | None \<Rightarrow> search r cs)"

text \<open>
  \<open>re.findall(pattern, s)\<close> for a pattern without groups: the matched texts, left to right,
  not overlapping.
\<close>

function findall :: "regex \<Rightarrow> string \<Rightarrow> string list" where
  "findall r s =
     (case rmatch r s [] (\<lambda>g s'. Some s') of
        Some s' \<Rightarrow>
          if length s' < length s then take (length s - length s') s # findall r s'
          else (case s of [] \<Rightarrow> [[]] | c # cs \<Rightarrow> [] # findall r cs)
      | None \<Rightarrow> (case s of [] \<Rightarrow> [] | c # cs \<Rightarrow> findall r cs))"
  by pat_completeness auto
termination
  by (relation "measure (\<lambda>(r, s). length s)") auto

declare findall.simps [simp del]

section \<open>The structured-output extractor\<close>

definition not_brace :: "char \<Rightarrow> bool" where
  "not_brace c = (c \<noteq> CHR ''{'' \<and> c \<noteq> CHR ''}'')"

text \<open>\<^verbatim>\<open>\{[^{}]*(?:\{[^{}]*\}[^{}]*)*\}\<close>\<close>

definition nested_pattern :: regex where
  "nested_pattern =
     cat_list [Lit ''{'', Star (Cls not_brace),
               Star (cat_list [Lit ''{'', Star (Cls not_brace), Lit ''}'', Star (Cls not_brace)]),
               Lit ''}'']"

text \<open>\<^verbatim>\<open>\{.*?\}\<close>, with \<open>re.DOTALL\<close>\<close>

definition simple_pattern :: regex where
  "simple_pattern = cat_list [Lit ''{'', Lazy (Cls (\<lambda>c. True)), Lit ''}'']"

definition json_patterns :: "regex list" where
  "json_patterns = [nested_pattern, simple_pattern]"

text \<open>The inner loop: the first match that \<open>json.loads\<close> accepts is returned.\<close>

fun try_matches :: "string list \<Rightarrow> json option" where
  "try_matches [] = None"
| "try_matches (m # ms) =
     (case json_loads m of
        Some v \<Rightarrow> Some v
      | None \<Rightarrow> try_matches ms)"

text \<open>The outer loop over the patterns; \<open>JNull\<close> is the final \<open>return None\<close>.\<close>

fun try_patterns :: "regex list \<Rightarrow> string \<Rightarrow> json" where
  "try_patterns [] text = JNull"
| "try_patterns (p # ps) text =
     (case try_matches (findall p text) of
        Some v \<Rightarrow> v
      | None \<Rightarrow> try_patterns ps text)"

definition parse_json_output :: "string \<Rightarrow> json" where
  "parse_json_output text =
     (let text = strip text in
      case json_loads text of
        Some v \<Rightarrow> v
      | None \<Rightarrow> try_patterns json_patterns text)"

section \<open>The call comparator\<close>

definition py_bind :: "py_error + 'a \<Rightarrow> ('a \<Rightarrow> py_error + 'b) \<Rightarrow> py_error + 'b" where
  "py_bind m f = (case m of Inl e \<Rightarrow> Inl e | Inr x \<Rightarrow> f x)"

text \<open>\<open>x.get(k, d)\<close>: only a \<open>dict\<close> has the method.\<close>

fun py_get :: "json \<Rightarrow> string \<Rightarrow> json \<Rightarrow> py_error + json" where
  "py_get (JObj d) k dflt = Inr (case map_of d k of None \<Rightarrow> dflt | Some v \<Rightarrow> v)"
| "py_get _ k dflt = Inl AttributeError"

fun is_substr :: "string \<Rightarrow> string \<Rightarrow> bool" where
  "is_substr k [] = (k = [])"
| "is_substr k (c # cs) = (starts_with k (c # cs) \<or> is_substr k cs)"

text \<open>\<open>k in x\<close> for a string \<open>k\<close>: a key of a \<open>dict\<close>, an element of a \<open>list\<close>, a part of a \<open>str\<close>.\<close>

fun py_contains :: "json \<Rightarrow> string \<Rightarrow> py_error + bool" where
  "py_contains (JObj d) k = Inr (k \<in> set (map fst d))"
| "py_contains (JArr xs) k = Inr (JStr k \<in> set xs)"
| "py_contains (JStr s) k = Inr (is_substr k s)"
| "py_contains _ k = Inl TypeError"

text \<open>\<open>x[k]\<close> for a string \<open>k\<close>.\<close>

fun py_index :: "json \<Rightarrow> string \<Rightarrow> py_error + json" where
  "py_index (JObj d) k = (case map_of d k of None \<Rightarrow> Inl KeyError | Some v \<Rightarrow> Inr v)"
| "py_index _ k = Inl TypeError"

text \<open>\<open>float(x)\<close>\<close>

fun py_float :: "json \<Rightarrow> py_error + real" where
  "py_float (JInt i) = Inr (of_int i)"
| "py_float (JFloat r) = Inr r"
| "py_float (JBool b) = Inr (if b then 1 else 0)"
| "py_float (JStr s) = (case float_of_str s of None \<Rightarrow> Inl ValueError | Some r \<Rightarrow> Inr r)"
| "py_float _ = Inl TypeError"

text \<open>The body of the \<open>try\<close> block of \<open>compare_coordinates\<close>.\<close>

definition compare_try :: "json \<Rightarrow> json \<Rightarrow> py_error + real option" where
  "compare_try expected predicted =
     py_bind (py_get expected ''arguments'' (JObj [])) (\<lambda>expected_args.
     py_bind (py_get predicted ''arguments'' (JObj [])) (\<lambda>predicted_args.
     py_bind (py_contains expected_args ''longitude'') (\<lambda>has_lon.
     py_bind (if has_lon then py_contains expected_args ''latitude'' else Inr False) (\<lambda>has_both.
     if has_both then
       py_bind (py_bind (py_index expected_args ''longitude'') py_float) (\<lambda>exp_lon.
       py_bind (py_bind (py_index expected_args ''latitude'') py_float) (\<lambda>exp_lat.
       py_bind (py_bind (py_get predicted_args ''longitude'' (JInt 0)) py_float) (\<lambda>pred_lon.
       py_bind (py_bind (py_get predicted_args ''latitude'' (JInt 0)) py_float) (\<lambda>pred_lat.
       Inr (Some (sqrt ((exp_lon - pred_lon)\<^sup>2 + (exp_lat - pred_lat)\<^sup>2)))))))
     else Inr None))))"

text \<open>\<open>except (TypeError, ValueError, KeyError): pass\<close>, then \<open>return None\<close>.\<close>

definition compare_coordinates :: "json \<Rightarrow> json \<Rightarrow> py_error + real option" where
  "compare_coordinates expected predicted =
     (case compare_try expected predicted of
        Inl e \<Rightarrow> if e \<in> {TypeError, ValueError, KeyError} then Inr None else Inl e
      | Inr r \<Rightarrow> Inr r)"

text \<open>Python's \<open>==\<close> on decoded values: numbers and booleans compare by value.\<close>

fun num_val :: "json \<Rightarrow> real option" where
  "num_val (JBool b) = Some (if b then 1 else 0)"
| "num_val (JInt i) = Some (of_int i)"
| "num_val (JFloat r) = Some r"
| "num_val _ = None"

fun py_eq :: "json \<Rightarrow> json \<Rightarrow> bool" where
  "py_eq (JArr xs) (JArr ys) = list_all2 py_eq xs ys"
| "py_eq (JObj a) (JObj b) =
     (length a = length b \<and>
      (\<forall>p \<in> set a. case map_of b (fst p) of None \<Rightarrow> False | Some v \<Rightarrow> py_eq (snd p) v))"
| "py_eq (JStr s) (JStr t) = (s = t)"
| "py_eq JNull JNull = True"
| "py_eq a b = (case (num_val a, num_val b) of (Some x, Some y) \<Rightarrow> x = y | _ \<Rightarrow> False)"

record EvalResult =
  instruction :: string
  expected :: string
  predicted :: string
  tool_match :: bool
  json_valid :: bool
  coord_error :: "real option"
  exact_match :: bool

definition evaluate_sample :: "string \<Rightarrow> string \<Rightarrow> string \<Rightarrow> py_error + EvalResult" where
  "evaluate_sample expected_str predicted_str instr =
     (let expected_json = parse_json_output expected_str;
          predicted_json = parse_json_output predicted_str;
          valid = (predicted_json \<noteq> JNull)
      in
        py_bind (if truthy expected_json \<and> truthy predicted_json then
                   py_bind (py_get expected_json ''tool'' JNull) (\<lambda>expected_tool.
                   py_bind (py_get predicted_json ''tool'' JNull) (\<lambda>predicted_tool.
                   Inr (py_eq expected_tool predicted_tool)))
                 else Inr False) (\<lambda>tm.
        py_bind (if truthy expected_json \<and> truthy predicted_json
                 then compare_coordinates expected_json predicted_json
                 else Inr None) (\<lambda>ce.
        Inr \<lparr>instruction = instr, expected = expected_str, predicted = predicted_str,
             tool_match = tm, json_valid = valid, coord_error = ce,
             exact_match = (strip expected_str = strip predicted_str)\<rparr>)))"

section \<open>The aggregator and its report\<close>

text \<open>
  A key of the \<open>tool_stats\<close> dictionary: Python identifies keys that are equal under \<open>==\<close>,
  so a number, whatever its type, is its value.
\<close>

datatype tool_key = KNone | KNum real | KStr string

text \<open>Hashing a decoded value as a dictionary key: a \<open>list\<close> or a \<open>dict\<close> is unhashable.\<close>

fun dict_key :: "json \<Rightarrow> py_error + tool_key" where
  "dict_key JNull = Inr KNone"
| "dict_key (JBool b) = Inr (KNum (if b then 1 else 0))"
| "dict_key (JInt i) = Inr (KNum (of_int i))"
| "dict_key (JFloat r) = Inr (KNum r)"
| "dict_key (JStr s) = Inr (KStr s)"
| "dict_key _ = Inl TypeError"

record tool_stat =
  total :: nat
  correct :: nat

type_synonym tool_stats = "(tool_key \<times> tool_stat) list"

text \<open>
  \<open>tool_stats[tool]["total"] += 1\<close> and, for a matching sample, the same on \<open>"correct"\<close>; the
  \<open>defaultdict\<close> makes a new entry, with both counts 0, at the end.
\<close>

definition bump :: "tool_key \<Rightarrow> bool \<Rightarrow> tool_stats \<Rightarrow> tool_stats" where
  "bump k tm st =
     (let old = (case map_of st k of None \<Rightarrow> \<lparr>total = 0, correct = 0\<rparr> | Some e \<Rightarrow> e)
      in AList.update k \<lparr>total = total old + 1,
                          correct = (if tm then correct old + 1 else correct old)\<rparr> st)"

fun tool_stats_loop :: "EvalResult list \<Rightarrow> tool_stats \<Rightarrow> py_error + tool_stats" where
  "tool_stats_loop [] st = Inr st"
| "tool_stats_loop (r # rs) st =
     (let expected_json = parse_json_output (expected r) in
      if truthy expected_json then
        py_bind (py_get expected_json ''tool'' (JStr ''unknown'')) (\<lambda>tool.
        py_bind (dict_key tool) (\<lambda>k.
        tool_stats_loop rs (bump k (tool_match r) st)))
      else tool_stats_loop rs st)"

text \<open>
  The order of \<open>sorted(tool_stats.items())\<close>: strings by code point, numbers by value. The
  rank places the three kinds of key in one linear order; \<open>sorted\<close> itself compares keys of
  one kind only.
\<close>

fun key_rank :: "tool_key \<Rightarrow> nat \<times> real \<times> string" where
  "key_rank KNone = (0, 0, [])"
| "key_rank (KNum r) = (1, r, [])"
| "key_rank (KStr s) = (2, 0, s)"

fun is_num_key :: "tool_key \<Rightarrow> bool" where
  "is_num_key (KNum r) = True"
| "is_num_key _ = False"

fun is_str_key :: "tool_key \<Rightarrow> bool" where
  "is_str_key (KStr s) = True"
| "is_str_key _ = False"

text \<open>
  \<open>sorted(items)\<close>: with two or more keys, comparing a string, a number and \<open>None\<close> with one
  another raises \<open>TypeError\<close>.
\<close>

definition sorted_items :: "tool_stats \<Rightarrow> py_error + tool_stats" where
  "sorted_items st =
     (if length st \<le> 1 \<or> list_all (\<lambda>e. is_num_key (fst e)) st \<or> list_all (\<lambda>e. is_str_key (fst e)) st
      then Inr (sort_key (\<lambda>e. key_rank (fst e)) st)
      else Inl TypeError)"

text \<open>\<open>100 * c / total\<close>, as in the rows of the summary table.\<close>

definition percentage :: "nat \<Rightarrow> nat \<Rightarrow> py_error + real" where
  "percentage c n = (if n = 0 then Inl ZeroDivisionError else Inr (100 * real c / real n))"

text \<open>A row of the per-tool table: tool, correct, total, accuracy.\<close>

definition tool_row :: "tool_key \<times> tool_stat \<Rightarrow> tool_key \<times> nat \<times> nat \<times> real" where
  "tool_row e =
     (fst e, correct (snd e), total (snd e),
      (if total (snd e) > 0 then 100 * real (correct (snd e)) / real (total (snd e)) else 0))"

text \<open>What \<open>print_results\<close> puts on the console: the summary table and the per-tool table.\<close>

record report =
  total_examples :: nat
  tool_accuracy :: "nat \<times> real"
  json_valid_row :: "nat \<times> real"
  exact_match_row :: "nat \<times> real"
  avg_coord_error :: "real option"
  per_tool :: "(tool_key \<times> nat \<times> nat \<times> real) list"

definition coord_errors :: "EvalResult list \<Rightarrow> real list" where
  "coord_errors results = map (\<lambda>r. the (coord_error r)) (filter (\<lambda>r. coord_error r \<noteq> None) results)"

subsection \<open>The sum of floats\<close>

text \<open>
  \<open>sum(coord_errors)\<close> adds the floats from the left, starting at 0, and each addition
  rounds its exact result to the nearest double, a tie going to the even significand; the
  quotient by the length is rounded in the same way. (This is the loop of CPython up to
  version 3.11; later versions carry a compensation term along.) \<open>round_double x\<close> is the
  rounding: the significand has 53 bits; for \<open>0 < a\<close> the exponent \<open>e = binade a\<close> has
  \<open>pow2 e \<le> a \<le> pow2 (e + 1)\<close>, and \<open>a\<close> is rounded to a multiple of \<open>pow2 (e - 52)\<close>. The
  exponent is not bounded: overflow to infinity and gradual underflow are outside the model.
  The length of a list is below \<open>2 ^ 53\<close> and converts to a float exactly.
\<close>

definition pow2 :: "int \<Rightarrow> real" where
  "pow2 e = (if 0 \<le> e then 2 ^ nat e else 1 / 2 ^ nat (- e))"

definition binade :: "real \<Rightarrow> int" where
  "binade a = (if 1 \<le> a then bitlen \<lfloor>a\<rfloor> - 1 else - bitlen \<lfloor>1 / a\<rfloor>)"

definition round_half_even :: "real \<Rightarrow> int" where
  "round_half_even m =
     (let n = \<lfloor>m\<rfloor>; r = m - of_int n
      in if r < 1 / 2 then n else if 1 / 2 < r then n + 1 else if even n then n else n + 1)"

definition round_double :: "real \<Rightarrow> real" where
  "round_double x =
     (if x = 0 then 0
      else let q = pow2 (binade \<bar>x\<bar> - 52);
               y = of_int (round_half_even (\<bar>x\<bar> / q)) * q
           in if x < 0 then - y else y)"

definition float_add :: "real \<Rightarrow> real \<Rightarrow> real" where
  "float_add x y = round_double (x + y)"

definition float_div :: "real \<Rightarrow> real \<Rightarrow> real" where
  "float_div x y = round_double (x / y)"

definition py_sum :: "real list \<Rightarrow> real" where
  "py_sum xs = foldl float_add 0 xs"

subsection \<open>The report\<close>

text \<open>
  \<open>print_results\<close>, up to the second \<open>console.print\<close>; the optional file of detailed results
  is not part of the model. A percentage is the quotient of two integers, which Python
  rounds once, whatever the order of the samples: it is kept exact.
\<close>

definition print_results :: "EvalResult list \<Rightarrow> py_error + report" where
  "print_results results =
     (let n = length results;
          tool_correct = length (filter tool_match results);
          valid = length (filter json_valid results);
          exact_matches = length (filter exact_match results);
          errs = coord_errors results;
          avg = (if errs \<noteq> [] then Some (float_div (py_sum errs) (real (length errs))) else None)
      in
        py_bind (tool_stats_loop results []) (\<lambda>stats.
        py_bind (percentage tool_correct n) (\<lambda>tool_pct.
        py_bind (percentage valid n) (\<lambda>valid_pct.
        py_bind (percentage exact_matches n) (\<lambda>exact_pct.
        py_bind (sorted_items stats) (\<lambda>items.
        Inr \<lparr>total_examples = n,
             tool_accuracy = (tool_correct, tool_pct),
             json_valid_row = (valid, valid_pct),
             exact_match_row = (exact_matches, exact_pct),
             avg_coord_error = avg,
             per_tool = map tool_row items\<rparr>))))))"

section \<open>The progress monitor\<close>

definition digit_or_dot :: "char \<Rightarrow> bool" where
  "digit_or_dot c = (is_digit c \<or> c = CHR ''.'')"

text \<open>\<open>.\<close> without \<open>re.DOTALL\<close>\<close>

definition any_char :: "char \<Rightarrow> bool" where
  "any_char c = (c \<noteq> CHR 0x0A)"

text \<open>\<^verbatim>\<open>Iter (\d+): Train loss ([\d.]+).*It/sec ([\d.]+).*Tokens/sec ([\d.]+).*Peak mem ([\d.]+)\<close>\<close>

definition iter_pattern :: regex where
  "iter_pattern =
     cat_list [Lit ''Iter '', Grp (Plus (Cls is_digit)),
               Lit '': Train loss '', Grp (Plus (Cls digit_or_dot)),
               Star (Cls any_char), Lit ''It/sec '', Grp (Plus (Cls digit_or_dot)),
               Star (Cls any_char), Lit ''Tokens/sec '', Grp (Plus (Cls digit_or_dot)),
               Star (Cls any_char), Lit ''Peak mem '', Grp (Plus (Cls digit_or_dot))]"

text \<open>\<^verbatim>\<open>Iter \d+: Val loss ([\d.]+)\<close>\<close>

definition val_pattern :: regex where
  "val_pattern =
     cat_list [Lit ''Iter '', Plus (Cls is_digit), Lit '': Val loss '', Grp (Plus (Cls digit_or_dot))]"

definition save_pattern :: regex where
  "save_pattern = Lit ''Saved adapter weights''"

text \<open>
  \<open>create_progress_bar\<close>: the numbers of filled and of empty cells, and the percentage.
  \<open>int()\<close> truncates towards zero; a string repeated a negative number of times is empty.
\<close>

definition trunc :: "real \<Rightarrow> int" where
  "trunc x = (if 0 \<le> x then \<lfloor>x\<rfloor> else \<lceil>x\<rceil>)"

definition create_progress_bar :: "int \<Rightarrow> int \<Rightarrow> int \<Rightarrow> nat \<times> nat \<times> real" where
  "create_progress_bar current n width =
     (if n = 0 then (0, nat width, 0)
      else (let filled = trunc (real_of_int width * real_of_int current / real_of_int n)
            in (nat filled, nat (width - filled), real_of_int current / real_of_int n * 100)))"

text \<open>
  A call of \<open>render\<close>: the values that the status line shows (the validation loss only when it
  is positive) and the progress bar. The formatting of the numbers and the truncation of the
  status line to the terminal width are not part of the model.
\<close>

record frame =
  shown_iter :: int
  shown_total :: int
  shown_loss :: real
  shown_val :: "real option"
  shown_tokens :: real
  shown_mem :: real
  save_indicator :: bool
  progress :: "nat \<times> nat \<times> real"

text \<open>The variables of \<open>main\<close> that the loop updates, and the calls of \<open>render\<close> so far.\<close>

record monitor =
  current_iter :: int
  train_loss :: real
  val_loss :: real
  tokens_per_sec :: real
  peak_mem :: real
  saved :: bool
  renders :: "frame list"

definition py_float_str :: "string \<Rightarrow> py_error + real" where
  "py_float_str s = (case float_of_str s of None \<Rightarrow> Inl ValueError | Some r \<Rightarrow> Inr r)"

text \<open>The three \<open>if\<close> statements at the head of the loop body, one definition each.\<close>

definition py_int_str :: "string \<Rightarrow> py_error + int" where
  "py_int_str s = (case int_of_str s of None \<Rightarrow> Inl ValueError | Some i \<Rightarrow> Inr i)"

text \<open>\<open>match.group(n)\<close> for \<open>n\<close> from 1.\<close>

definition group :: "string list \<Rightarrow> nat \<Rightarrow> py_error + string" where
  "group g n = (if 1 \<le> n \<and> n \<le> length g then Inr (g ! (n - 1)) else Inl IndexError)"

definition parse_iteration :: "string list option \<Rightarrow> monitor \<Rightarrow> py_error + monitor" where
  "parse_iteration iter_match m =
     (case iter_match of
        None \<Rightarrow> Inr m
      | Some g \<Rightarrow>
          py_bind (py_bind (group g 1) py_int_str) (\<lambda>it.
          py_bind (py_bind (group g 2) py_float_str) (\<lambda>loss.
          py_bind (py_bind (group g 4) py_float_str) (\<lambda>tps.
          py_bind (py_bind (group g 5) py_float_str) (\<lambda>mem.
          Inr (m\<lparr>current_iter := it, train_loss := loss, tokens_per_sec := tps,
                  peak_mem := mem, saved := False\<rparr>))))))"

definition parse_validation :: "string list option \<Rightarrow> monitor \<Rightarrow> py_error + monitor" where
  "parse_validation val_match m =
     (case val_match of
        None \<Rightarrow> Inr m
      | Some g \<Rightarrow> py_bind (py_bind (group g 1) py_float_str) (\<lambda>v. Inr (m\<lparr>val_loss := v\<rparr>)))"

definition check_save :: "string \<Rightarrow> monitor \<Rightarrow> monitor" where
  "check_save line m = (if search save_pattern line \<noteq> None then m\<lparr>saved := True\<rparr> else m)"

definition render :: "int \<Rightarrow> int \<Rightarrow> monitor \<Rightarrow> monitor" where
  "render total_iters bar_width m =
     m\<lparr>renders := renders m @
         [\<lparr>shown_iter = current_iter m, shown_total = total_iters, shown_loss = train_loss m,
           shown_val = (if val_loss m > 0 then Some (val_loss m) else None),
           shown_tokens = tokens_per_sec m, shown_mem = peak_mem m, save_indicator = saved m,
           progress = create_progress_bar (current_iter m) total_iters bar_width\<rparr>]\<rparr>"

text \<open>The body of \<open>for line in process.stdout\<close>.\<close>

definition process_line :: "int \<Rightarrow> int \<Rightarrow> monitor \<Rightarrow> string \<Rightarrow> py_error + monitor" where
  "process_line total_iters bar_width m raw =
     (let line = strip raw;
          iter_match = search iter_pattern line;
          val_match = search val_pattern line
      in
        py_bind (parse_iteration iter_match m) (\<lambda>m1.
        py_bind (parse_validation val_match m1) (\<lambda>m2.
        (let m3 = check_save line m2 in
         if iter_match \<noteq> None \<or> val_match \<noteq> None
         then Inr (render total_iters bar_width m3)
         else Inr m3))))"

fun process_lines :: "int \<Rightarrow> int \<Rightarrow> monitor \<Rightarrow> string list \<Rightarrow> py_error + monitor" where
  "process_lines total_iters bar_width m [] = Inr m"
| "process_lines total_iters bar_width m (l # ls) =
     py_bind (process_line total_iters bar_width m l) (\<lambda>m'.
     process_lines total_iters bar_width m' ls)"

section \<open>Texts with an embedded document\<close>





section \<open>The bucket of a sample\<close>

text \<open>
  The bucket that the per-tool breakdown counts a sample in, stated on its own: no bucket when
  the expected text yields nothing or an empty value; otherwise the key of the \<open>tool\<close> field of
  the expected record, and \<open>"unknown"\<close> when the record has no such field.
\<close>

definition bucket :: "EvalResult \<Rightarrow> tool_key option" where
  "bucket r =
     (case parse_json_output (expected r) of
        JObj d \<Rightarrow>
          if d = [] then None
          else (case map_of d ''tool'' of
                  None \<Rightarrow> Some (KStr ''unknown'')
                | Some v \<Rightarrow> (case dict_key v of Inl e \<Rightarrow> None | Inr k \<Rightarrow> Some k))
      | _ \<Rightarrow> None)"

section \<open>Samples that the loop of the aggregator accepts\<close>

text \<open>
  The loop over the samples raises on a sample whose expected text extracts to a non-empty
  value that is not a mapping, or to a mapping whose tool is a list or a mapping.
\<close>

definition sample_ok :: "EvalResult \<Rightarrow> bool" where
  "sample_ok r =
     (truthy (parse_json_output (expected r)) \<longrightarrow>
      (\<exists>k. py_bind (py_get (parse_json_output (expected r)) ''tool'' (JStr ''unknown'')) dict_key =
             Inr k))"

section \<open>A batch of three samples\<close>

text \<open>
  Expected tools \<open>flyTo\<close>, \<open>flyTo\<close>, \<open>zoom\<close>, of which only the first is matched, and the
  report on them.
\<close>

definition sample_hit :: EvalResult where
  "sample_hit = \<lparr>instruction = ''a'', expected = ''{\"tool\":\"flyTo\"}'', predicted = ''{\"tool\":\"flyTo\"}'',
          tool_match = True, json_valid = True, coord_error = Some 1, exact_match = True\<rparr>"

definition sample_miss :: EvalResult where
  "sample_miss = \<lparr>instruction = ''b'', expected = ''{\"tool\":\"flyTo\"}'', predicted = ''{\"tool\":\"zoom\"}'',
          tool_match = False, json_valid = True, coord_error = Some 2, exact_match = False\<rparr>"

definition sample_zoom :: EvalResult where
  "sample_zoom = \<lparr>instruction = ''c'', expected = ''{\"tool\":\"zoom\"}'', predicted = ''nope'',
          tool_match = False, json_valid = False, coord_error = None, exact_match = False\<rparr>"

definition report_three :: report where
  "report_three = \<lparr>total_examples = 3, tool_accuracy = (1, 100 / 3), json_valid_row = (2, 200 / 3),
            exact_match_row = (1, 100 / 3), avg_coord_error = Some (3 / 2),
            per_tool = [(KStr ''flyTo'', 1, 2, 50), (KStr ''zoom'', 0, 1, 0)]\<rparr>"

section \<open>Samples whose errors do not add up exactly\<close>

text \<open>
  Three samples with the coordinate errors that Python writes \<open>0.1\<close>, \<open>0.2\<close> and \<open>0.3\<close>,
  that is, the doubles nearest to these numbers.
\<close>

definition sample_err :: "real \<Rightarrow> EvalResult" where
  "sample_err e = \<lparr>instruction = ''go'', expected = ''{\"tool\":\"flyTo\"}'',
          predicted = ''{\"tool\":\"flyTo\"}'', tool_match = True, json_valid = True,
          coord_error = Some (round_double e), exact_match = True\<rparr>"

text \<open>The unit roundoff of a double: half the distance from 1 to the next double.\<close>

definition unit_roundoff :: real where
  "unit_roundoff = 1 / 2 ^ 53"

section \<open>The bound of the decoder\<close>

lemma skip_ws_length: "length (skip_ws s) \<le> length s"
  by (simp add: skip_ws_def length_dropWhile_le)

lemma scanstring_shorter: "scanstring s = Some (t, r) \<Longrightarrow> length r < length s"
proof (induction s arbitrary: t r rule: scanstring.induct)
  case 1
  then show ?case
    by simp
next
  case (2 c cs)
  show ?case
  proof (cases "c = CHR ''\"''")
    case True
    with "2.prems" show ?thesis
      by simp
  next
    case quote: False
    show ?thesis
    proof (cases "c = CHR 0x5C")
      case False
      with quote "2.prems" "2.IH"(3) show ?thesis
        by (fastforce split: if_splits)
    next
      case True
      with quote "2.prems" obtain e es where cs: "cs = e # es"
        by (cases cs) auto
      show ?thesis
      proof (cases "e = CHR ''u''")
        case u: True
        with True quote cs "2.prems" obtain u' r' t' where
          ue: "unicode_escape es = Some (u', r')" and sc: "scanstring r' = Some (t', r)"
          by (auto split: option.splits)
        from "2.IH"(1) [OF quote True cs u ue refl sc] unicode_escape_length [OF ue] cs
        show ?thesis
          by simp
      next
        case nu: False
        with True quote cs "2.prems" obtain x t' where
          se: "simple_escape e = Some x" and sc: "scanstring es = Some (t', r)"
          by (auto split: option.splits)
        from "2.IH"(2) [OF quote True cs nu se sc] cs show ?thesis
          by simp
      qed
    qed
  qed
qed

lemma number_int_part_shorter:
  "number_int_part s = Some (ip, r) \<Longrightarrow> length r < length s"
  by (cases s) (auto simp: number_int_part_def less_Suc_eq_le length_dropWhile_le split: if_splits)

lemma number_frac_part_length: "number_frac_part s = (fp, r) \<Longrightarrow> length r \<le> length s"
proof (cases s)
  case Nil
  then show "number_frac_part s = (fp, r) \<Longrightarrow> length r \<le> length s"
    by (simp add: number_frac_part_def)
next
  case (Cons c cs)
  then show "number_frac_part s = (fp, r) \<Longrightarrow> length r \<le> length s"
    by (cases cs)
      (auto simp: number_frac_part_def le_Suc_eq length_dropWhile_le
        intro: order_trans [OF length_dropWhile_le] split: if_splits)
qed

lemma take_sign_length: "take_sign s = (neg, r) \<Longrightarrow> length r \<le> length s"
  by (cases s) (auto simp: take_sign_def split: if_splits)

lemma number_exp_part_length: "number_exp_part s = (ex, r) \<Longrightarrow> length r \<le> length s"
proof (cases s)
  case Nil
  then show "number_exp_part s = (ex, r) \<Longrightarrow> length r \<le> length s"
    by (simp add: number_exp_part_def)
next
  case (Cons c cs)
  obtain neg r' where ts: "take_sign cs = (neg, r')"
    by (cases "take_sign cs")
  have "length (dropWhile is_digit r') \<le> length cs"
    using take_sign_length [OF ts] length_dropWhile_le [of is_digit r'] by simp
  with Cons ts show "number_exp_part s = (ex, r) \<Longrightarrow> length r \<le> length s"
    by (auto simp: number_exp_part_def Let_def split: if_splits)
qed

lemma parse_number_shorter: "parse_number s = Some (v, r) \<Longrightarrow> length r < length s"
proof -
  assume a: "parse_number s = Some (v, r)"
  define s1 where "s1 = (case s of [] \<Rightarrow> s | c # cs \<Rightarrow> if c = CHR ''-'' then cs else s)"
  have s1: "length s1 \<le> length s"
    by (cases s) (auto simp: s1_def)
  from a obtain ip r1 where ip: "number_int_part s1 = Some (ip, r1)"
    by (cases s; cases "number_int_part s1")
      (auto simp: parse_number_def s1_def Let_def split: if_splits)
  obtain fp r2 where fp: "number_frac_part r1 = (fp, r2)"
    by (cases "number_frac_part r1")
  obtain ex r3 where ex: "number_exp_part r2 = (ex, r3)"
    by (cases "number_exp_part r2")
  from a ip fp ex have "r = r3"
    by (cases s) (auto simp: parse_number_def s1_def Let_def split: if_splits)
  with number_int_part_shorter [OF ip] number_frac_part_length [OF fp]
    number_exp_part_length [OF ex] s1
  show ?thesis
    by simp
qed

lemma starts_with_Cons: "starts_with [c] s \<longleftrightarrow> (\<exists>r. s = c # r)"
  by (cases s) (auto simp: starts_with_def)

lemma parse_value_Suc_shorter:
  assumes m: "\<And>acc s v r. parse_members n acc s = Some (v, r) \<Longrightarrow> length r < length s"
    and e: "\<And>acc s v r. parse_elements n acc s = Some (v, r) \<Longrightarrow> length r < length s"
    and p: "parse_value (Suc n) s = Some (v, r)"
  shows "length r < length s"
proof (cases s)
  case Nil
  with p show ?thesis
    by simp
next
  case (Cons c cs)
  have ws: "length (skip_ws cs) \<le> length cs"
    by (rule skip_ws_length)
  consider (str) "c = CHR ''\"''" | (obj) "c \<noteq> CHR ''\"''" "c = CHR ''{''"
    | (arr) "c \<noteq> CHR ''\"''" "c \<noteq> CHR ''{''" "c = CHR ''[''"
    | (other) "c \<noteq> CHR ''\"''" "c \<noteq> CHR ''{''" "c \<noteq> CHR ''[''"
    by blast
  then show ?thesis
  proof cases
    case str
    with p Cons obtain t where "scanstring cs = Some (t, r)"
      by auto
    from scanstring_shorter [OF this] Cons show ?thesis
      by simp
  next
    case obj
    show ?thesis
    proof (cases "starts_with ''}'' (skip_ws cs)")
      case True
      with p Cons obj have "r = drop 1 (skip_ws cs)"
        by (simp add: Let_def)
      with ws Cons show ?thesis
        by simp
    next
      case False
      with p Cons obj have "parse_members n [] (skip_ws cs) = Some (v, r)"
        by (simp add: Let_def)
      from m [OF this] ws Cons show ?thesis
        by simp
    qed
  next
    case arr
    show ?thesis
    proof (cases "starts_with '']'' (skip_ws cs)")
      case True
      with p Cons arr have "r = drop 1 (skip_ws cs)"
        by (simp add: Let_def)
      with ws Cons show ?thesis
        by simp
    next
      case False
      with p Cons arr have "parse_elements n [] (skip_ws cs) = Some (v, r)"
        by (simp add: Let_def)
      from e [OF this] ws Cons show ?thesis
        by simp
    qed
  next
    case other
    with p Cons have
      "(starts_with ''null'' s \<and> r = drop 4 s) \<or> (starts_with ''true'' s \<and> r = drop 4 s) \<or>
       (starts_with ''false'' s \<and> r = drop 5 s) \<or> parse_number s = Some (v, r)"
      by (auto split: if_splits)
    with Cons show ?thesis
      by (auto dest: parse_number_shorter)
  qed
qed

lemma parse_members_Suc_shorter:
  assumes pv: "\<And>s v r. parse_value n s = Some (v, r) \<Longrightarrow> length r < length s"
    and m: "\<And>acc s v r. parse_members n acc s = Some (v, r) \<Longrightarrow> length r < length s"
    and p: "parse_members (Suc n) acc s = Some (v, r)"
  shows "length r < length s"
proof -
  from p have q: "starts_with ''\"'' s"
    by (auto split: if_splits)
  with p obtain k r0 where sc: "scanstring (drop 1 s) = Some (k, r0)"
    by (auto split: option.splits)
  let ?r1 = "skip_ws r0"
  from p q sc have colon: "starts_with '':'' ?r1"
    by (auto simp: Let_def split: if_splits)
  with p q sc obtain v' r2 where val: "parse_value n (skip_ws (drop 1 ?r1)) = Some (v', r2)"
    by (auto simp: Let_def split: option.splits)
  let ?r3 = "skip_ws r2"
  have l0: "length r0 < length s"
    using scanstring_shorter [OF sc] by simp
  have l1: "length (skip_ws (drop 1 ?r1)) \<le> length r0"
    using skip_ws_length [of "drop 1 ?r1"] skip_ws_length [of r0] by simp
  have l2: "length ?r3 < length r0"
    using pv [OF val] l1 skip_ws_length [of r2] by simp
  from p q sc colon val have
    "(starts_with '','' ?r3 \<and>
        parse_members n (AList.update k v' acc) (skip_ws (drop 1 ?r3)) = Some (v, r)) \<or>
     (starts_with ''}'' ?r3 \<and> r = drop 1 ?r3)"
    by (auto simp: Let_def split: if_splits)
  then show ?thesis
  proof
    assume "starts_with '','' ?r3 \<and>
        parse_members n (AList.update k v' acc) (skip_ws (drop 1 ?r3)) = Some (v, r)"
    then have "length r < length (skip_ws (drop 1 ?r3))"
      using m by blast
    with skip_ws_length [of "drop 1 ?r3"] l2 l0 show ?thesis
      by simp
  next
    assume "starts_with ''}'' ?r3 \<and> r = drop 1 ?r3"
    with l2 l0 show ?thesis
      by simp
  qed
qed

lemma parse_elements_Suc_shorter:
  assumes pv: "\<And>s v r. parse_value n s = Some (v, r) \<Longrightarrow> length r < length s"
    and e: "\<And>acc s v r. parse_elements n acc s = Some (v, r) \<Longrightarrow> length r < length s"
    and p: "parse_elements (Suc n) acc s = Some (v, r)"
  shows "length r < length s"
proof -
  from p obtain v' r0 where val: "parse_value n s = Some (v', r0)"
    by (auto split: option.splits)
  let ?r1 = "skip_ws r0"
  have l1: "length ?r1 < length s"
    using pv [OF val] skip_ws_length [of r0] by simp
  from p val have
    "(starts_with '','' ?r1 \<and> parse_elements n (acc @ [v']) (skip_ws (drop 1 ?r1)) = Some (v, r)) \<or>
     (starts_with '']'' ?r1 \<and> r = drop 1 ?r1)"
    by (auto simp: Let_def split: if_splits)
  then show ?thesis
  proof
    assume "starts_with '','' ?r1 \<and>
        parse_elements n (acc @ [v']) (skip_ws (drop 1 ?r1)) = Some (v, r)"
    then have "length r < length (skip_ws (drop 1 ?r1))"
      using e by blast
    with skip_ws_length [of "drop 1 ?r1"] l1 show ?thesis
      by simp
  next
    assume "starts_with '']'' ?r1 \<and> r = drop 1 ?r1"
    with l1 show ?thesis
      by simp
  qed
qed

lemma parse_shorter:
  "(\<forall>s v r. parse_value n s = Some (v, r) \<longrightarrow> length r < length s) \<and>
   (\<forall>acc s v r. parse_members n acc s = Some (v, r) \<longrightarrow> length r < length s) \<and>
   (\<forall>acc s v r. parse_elements n acc s = Some (v, r) \<longrightarrow> length r < length s)"
proof (induction n)
  case 0
  show ?case
    by simp
next
  case (Suc n)
  then have pv: "\<And>s v r. parse_value n s = Some (v, r) \<Longrightarrow> length r < length s"
    and m: "\<And>acc s v r. parse_members n acc s = Some (v, r) \<Longrightarrow> length r < length s"
    and e: "\<And>acc s v r. parse_elements n acc s = Some (v, r) \<Longrightarrow> length r < length s"
    by blast+
  show ?case
  proof (intro conjI allI impI)
    fix s v r
    assume a: "parse_value (Suc n) s = Some (v, r)"
    show "length r < length s"
      by (rule parse_value_Suc_shorter [OF _ _ a]) (erule m, erule e)
  next
    fix acc s v r
    assume a: "parse_members (Suc n) acc s = Some (v, r)"
    show "length r < length s"
      by (rule parse_members_Suc_shorter [OF _ _ a]) (erule pv, erule m)
  next
    fix acc s v r
    assume a: "parse_elements (Suc n) acc s = Some (v, r)"
    show "length r < length s"
      by (rule parse_elements_Suc_shorter [OF _ _ a]) (erule pv, erule e)
  qed
qed

lemma parse_value_shorter: "parse_value n s = Some (v, r) \<Longrightarrow> length r < length s"
  using parse_shorter [of n] by blast

lemma parse_value_cong:
  assumes m: "\<And>acc x. length x < length s \<Longrightarrow> parse_members i acc x = parse_members j acc x"
    and e: "\<And>acc x. length x < length s \<Longrightarrow> parse_elements i acc x = parse_elements j acc x"
  shows "parse_value (Suc i) s = parse_value (Suc j) s"
proof (cases s)
  case Nil
  then show ?thesis
    by simp
next
  case (Cons c cs)
  have "length (skip_ws cs) < length s"
    using skip_ws_length [of cs] Cons by simp
  then have "parse_members i [] (skip_ws cs) = parse_members j [] (skip_ws cs)"
    and "parse_elements i [] (skip_ws cs) = parse_elements j [] (skip_ws cs)"
    using m e by blast+
  with Cons show ?thesis
    by (simp add: Let_def)
qed

lemma parse_members_cong:
  assumes pv: "\<And>x. length x + 2 \<le> length s \<Longrightarrow> parse_value i x = parse_value j x"
    and m: "\<And>acc x. length x + 2 \<le> length s \<Longrightarrow> parse_members i acc x = parse_members j acc x"
  shows "parse_members (Suc i) acc s = parse_members (Suc j) acc s"
proof (cases "scanstring (drop 1 s)")
  case None
  then show ?thesis
    by simp
next
  case (Some kr)
  obtain k r0 where kr: "kr = (k, r0)"
    by (cases kr)
  let ?x = "skip_ws (drop 1 (skip_ws r0))"
  have l0: "length r0 < length (drop 1 s)"
    using scanstring_shorter Some kr by blast
  have lx: "length ?x \<le> length r0"
    using skip_ws_length [of "drop 1 (skip_ws r0)"] skip_ws_length [of r0] by simp
  from l0 lx have "length ?x + 2 \<le> length s"
    by simp
  then have v: "parse_value i ?x = parse_value j ?x"
    by (rule pv)
  show ?thesis
  proof (cases "parse_value j ?x")
    case None
    with v Some kr show ?thesis
      by (simp add: Let_def)
  next
    case (Some vr)
    obtain v' r2 where vr: "vr = (v', r2)"
      by (cases vr)
    let ?y = "skip_ws (drop 1 (skip_ws r2))"
    have "length r2 < length ?x"
      using parse_value_shorter Some vr by blast
    moreover have "length ?y \<le> length r2"
      using skip_ws_length [of "drop 1 (skip_ws r2)"] skip_ws_length [of r2] by simp
    ultimately have "length ?y + 2 \<le> length s"
      using l0 lx by simp
    then have "parse_members i (AList.update k v' acc) ?y = parse_members j (AList.update k v' acc) ?y"
      by (rule m)
    with v Some vr \<open>scanstring (drop 1 s) = Some kr\<close> kr show ?thesis
      by (simp add: Let_def)
  qed
qed

lemma parse_elements_cong:
  assumes pv: "parse_value i s = parse_value j s"
    and e: "\<And>acc x. length x < length s \<Longrightarrow> parse_elements i acc x = parse_elements j acc x"
  shows "parse_elements (Suc i) acc s = parse_elements (Suc j) acc s"
proof (cases "parse_value j s")
  case None
  with pv show ?thesis
    by simp
next
  case (Some vr)
  obtain v' r where vr: "vr = (v', r)"
    by (cases vr)
  let ?y = "skip_ws (drop 1 (skip_ws r))"
  have "length r < length s"
    using parse_value_shorter Some vr by blast
  moreover have "length ?y \<le> length r"
    using skip_ws_length [of "drop 1 (skip_ws r)"] skip_ws_length [of r] by simp
  ultimately have "length ?y < length s"
    by simp
  then have "parse_elements i (acc @ [v']) ?y = parse_elements j (acc @ [v']) ?y"
    by (rule e)
  with pv Some vr show ?thesis
    by (simp add: Let_def)
qed

text \<open>Above twice the length of the text one more unit of fuel changes nothing.\<close>

lemma fuel_step:
  "(\<forall>s. 2 * length s \<le> n \<longrightarrow> parse_value (Suc n) s = parse_value n s) \<and>
   (\<forall>acc s. 2 * length s \<le> n \<longrightarrow> parse_members (Suc n) acc s = parse_members n acc s) \<and>
   (\<forall>acc s. 2 * length s + 1 \<le> n \<longrightarrow> parse_elements (Suc n) acc s = parse_elements n acc s)"
proof (induction n)
  case 0
  show ?case
    by (simp add: starts_with_def)
next
  case (Suc n)
  then have v: "\<And>s. 2 * length s \<le> n \<Longrightarrow> parse_value (Suc n) s = parse_value n s"
    and m: "\<And>acc s. 2 * length s \<le> n \<Longrightarrow> parse_members (Suc n) acc s = parse_members n acc s"
    and e: "\<And>acc s. 2 * length s + 1 \<le> n \<Longrightarrow>
              parse_elements (Suc n) acc s = parse_elements n acc s"
    by blast+
  show ?case
  proof (intro conjI allI impI)
    fix s :: string
    assume b: "2 * length s \<le> Suc n"
    show "parse_value (Suc (Suc n)) s = parse_value (Suc n) s"
    proof (rule parse_value_cong)
      fix acc and x :: string
      assume "length x < length s"
      with b show "parse_members (Suc n) acc x = parse_members n acc x"
        by (intro m) simp
    next
      fix acc and x :: string
      assume "length x < length s"
      with b show "parse_elements (Suc n) acc x = parse_elements n acc x"
        by (intro e) simp
    qed
  next
    fix acc and s :: string
    assume b: "2 * length s \<le> Suc n"
    show "parse_members (Suc (Suc n)) acc s = parse_members (Suc n) acc s"
    proof (rule parse_members_cong)
      fix x :: string
      assume "length x + 2 \<le> length s"
      with b show "parse_value (Suc n) x = parse_value n x"
        by (intro v) simp
    next
      fix acc and x :: string
      assume "length x + 2 \<le> length s"
      with b show "parse_members (Suc n) acc x = parse_members n acc x"
        by (intro m) simp
    qed
  next
    fix acc and s :: string
    assume b: "2 * length s + 1 \<le> Suc n"
    show "parse_elements (Suc (Suc n)) acc s = parse_elements (Suc n) acc s"
    proof (rule parse_elements_cong)
      from b show "parse_value (Suc n) s = parse_value n s"
        by (intro v) simp
    next
      fix acc and x :: string
      assume "length x < length s"
      with b show "parse_elements (Suc n) acc x = parse_elements n acc x"
        by (intro e) simp
    qed
  qed
qed

lemma parse_value_fuel:
  assumes "2 * length s \<le> n"
  shows "parse_value (n + k) s = parse_value n s"
proof (induction k)
  case 0
  show ?case
    by simp
next
  case (Suc k)
  have "parse_value (Suc (n + k)) s = parse_value (n + k) s"
    using fuel_step [of "n + k"] assms by simp
  with Suc show ?case
    by simp
qed

lemma json_loads_fuel:
  assumes "2 * length s \<le> n"
  shows "json_loads s =
           (case parse_value n (skip_ws s) of
              None \<Rightarrow> None
            | Some (v, r) \<Rightarrow> if skip_ws r = [] then Some v else None)"
proof -
  from assms obtain k where n: "n = 2 * length s + k"
    by (auto simp: le_iff_add)
  have "2 * length (skip_ws s) \<le> 2 * length s"
    using skip_ws_length [of s] by simp
  then have "parse_value (2 * length s + k) (skip_ws s) = parse_value (2 * length s) (skip_ws s)"
    by (rule parse_value_fuel)
  with n show ?thesis
    by (simp add: json_loads_def)
qed

section \<open>Evaluation of the model on concrete texts\<close>

lemma parse_empty_obj: "parse_json_output ''{}'' = JObj []"
  by code_simp

lemma parse_array: "parse_json_output ''[1, 2]'' = JArr [JInt 1, JInt 2]"
  by code_simp

lemma parse_not_json: "parse_json_output ''not json'' = JNull"
  by code_simp

lemma parse_tool_only: "parse_json_output ''{\"tool\":\"flyTo\"}'' = JObj [(''tool'', JStr ''flyTo'')]"
  by code_simp

lemma parse_fly_10_20:
  "parse_json_output ''{\"tool\":\"flyTo\",\"arguments\":{\"longitude\":10.0,\"latitude\":20.0}}'' =
     JObj [(''tool'', JStr ''flyTo''),
           (''arguments'', JObj [(''longitude'', JFloat 10), (''latitude'', JFloat 20)])]"
  by code_simp




lemma parse_fly_3_4:
  "parse_json_output ''{\"tool\":\"flyTo\",\"arguments\":{\"longitude\":3.0,\"latitude\":4.0}}'' =
     JObj [(''tool'', JStr ''flyTo''),
           (''arguments'', JObj [(''longitude'', JFloat 3), (''latitude'', JFloat 4)])]"
  by code_simp

lemma parse_fly_noargs:
  "parse_json_output ''{\"tool\":\"flyTo\",\"arguments\":{}}'' =
     JObj [(''tool'', JStr ''flyTo''), (''arguments'', JObj [])]"
  by code_simp


lemma sqrt_25: "sqrt 25 = 5"
  using real_sqrt_abs [of 5] by simp


lemma eval_identical:
  "evaluate_sample ''{\"tool\":\"flyTo\",\"arguments\":{\"longitude\":10.0,\"latitude\":20.0}}''
                   ''{\"tool\":\"flyTo\",\"arguments\":{\"longitude\":10.0,\"latitude\":20.0}}'' ''go'' =
     Inr \<lparr>instruction = ''go'',
          expected = ''{\"tool\":\"flyTo\",\"arguments\":{\"longitude\":10.0,\"latitude\":20.0}}'',
          predicted = ''{\"tool\":\"flyTo\",\"arguments\":{\"longitude\":10.0,\"latitude\":20.0}}'',
          tool_match = True, json_valid = True, coord_error = Some 0, exact_match = True\<rparr>"
  by (simp add: evaluate_sample_def py_bind_def parse_fly_10_20 compare_coordinates_def
      compare_try_def)

lemma print_results_three:
  "print_results [sample_hit, sample_miss, sample_zoom] = Inr report_three"
  by code_simp

section \<open>The report on an empty batch\<close>

text \<open>
  Claim C1. The claim asks that \<open>print_results\<close> on the empty sample sequence signals an
  explicit empty-input condition or a sentinel and lets no division by zero escape. The code
  computes \<open>100*tool_correct/total\<close> for the first percentage row with \<open>total = 0\<close>: the
  \<open>ZeroDivisionError\<close> leaves the function. (The rates written to the results file are
  guarded by \<open>if total > 0 else 0\<close>; the rows of the table are not.)
\<close>

theorem print_results_empty: "print_results [] = Inl ZeroDivisionError"
  by (simp add: print_results_def py_bind_def percentage_def coord_errors_def)

section \<open>Texts that are JSON but not a mapping\<close>

text \<open>
  Claim C4. The claim asks that a text whose trimmed content is valid JSON other than a mapping
  is reported absent, so that such a predicted text has \<open>json_valid = False\<close>. The code returns
  whatever \<open>json.loads\<close> produced: for \<open>[1, 2]\<close> the extractor returns the list, the sample is
  counted as valid JSON, and against an expected record with a tool the call of \<open>.get\<close> on the
  list raises \<open>AttributeError\<close>.
\<close>

theorem array_text_is_extracted:
  "parse_json_output ''[1, 2]'' = JArr [JInt 1, JInt 2] \<and>
   evaluate_sample ''not json'' ''[1, 2]'' ''go'' =
     Inr \<lparr>instruction = ''go'', expected = ''not json'', predicted = ''[1, 2]'',
          tool_match = False, json_valid = True, coord_error = None, exact_match = False\<rparr> \<and>
   evaluate_sample ''{\"tool\":\"flyTo\"}'' ''[1, 2]'' ''go'' = Inl AttributeError"
  by (simp add: evaluate_sample_def py_bind_def parse_array parse_not_json parse_tool_only
      strip_def is_space_def)

section \<open>Invariants of a sample evaluation\<close>

text \<open>
  Claim C9. Whenever \<open>evaluate_sample\<close> returns a result, \<open>tool_match\<close> implies \<open>json_valid\<close>,
  and a present \<open>coord_error\<close> implies \<open>json_valid\<close>.
\<close>

theorem sample_invariants:
  assumes "evaluate_sample expected_str predicted_str instr = Inr r"
  shows "(tool_match r \<longrightarrow> json_valid r) \<and> (coord_error r \<noteq> None \<longrightarrow> json_valid r)"
proof (cases "truthy (parse_json_output expected_str) \<and> truthy (parse_json_output predicted_str)")
  case True
  then have "parse_json_output predicted_str \<noteq> JNull"
    by auto
  with assms show ?thesis
    by (auto simp: evaluate_sample_def py_bind_def Let_def split: sum.splits if_splits)
next
  case False
  with assms show ?thesis
    by (auto simp: evaluate_sample_def py_bind_def Let_def split: sum.splits if_splits)
qed

theorem sample_invariants_witness:
  "\<exists>r. evaluate_sample
          ''{\"tool\":\"flyTo\",\"arguments\":{\"longitude\":10.0,\"latitude\":20.0}}''
          ''{\"tool\":\"flyTo\",\"arguments\":{\"longitude\":10.0,\"latitude\":20.0}}'' ''go'' = Inr r \<and>
        tool_match r \<and> coord_error r \<noteq> None \<and> json_valid r"
  using sample_invariants [OF eval_identical] eval_identical by simp

section \<open>A prediction that is the empty mapping\<close>

text \<open>
  Claim C10. When the predicted text extracts to the empty mapping, the sample is valid JSON,
  but the tool and coordinate comparisons are skipped, because they are guarded by the truth
  value of the two extracted mappings: \<open>tool_match\<close> is false and \<open>coord_error\<close> is absent,
  whatever the expected text is (the empty mapping included).
\<close>

theorem empty_mapping_prediction:
  assumes "parse_json_output predicted_str = JObj []"
  shows "evaluate_sample expected_str predicted_str instr =
           Inr \<lparr>instruction = instr, expected = expected_str, predicted = predicted_str,
                tool_match = False, json_valid = True, coord_error = None,
                exact_match = (strip expected_str = strip predicted_str)\<rparr>"
  using assms by (simp add: evaluate_sample_def py_bind_def)

theorem empty_mapping_prediction_witness:
  "parse_json_output ''{}'' = JObj [] \<and>
   evaluate_sample ''{}'' ''{}'' ''go'' =
     Inr \<lparr>instruction = ''go'', expected = ''{}'', predicted = ''{}'',
          tool_match = False, json_valid = True, coord_error = None, exact_match = True\<rparr>"
  using empty_mapping_prediction [OF parse_empty_obj, of "''{}''" "''go''"] parse_empty_obj
  by simp

section \<open>The value of the coordinate error\<close>




section \<open>When the coordinate error is present\<close>

lemma py_get_Inr: "py_get v k d = Inr w \<Longrightarrow> \<exists>kvs. v = JObj kvs"
  by (cases v) auto

lemma compare_try_present:
  assumes "compare_try ex pr = Inr (Some d)"
  shows "\<exists>ed ea x y. ex = JObj ed \<and> map_of ed ''arguments'' = Some (JObj ea) \<and>
           map_of ea ''longitude'' = Some x \<and> map_of ea ''latitude'' = Some y"
proof -
  from assms obtain ed where ex: "ex = JObj ed"
    by (cases ex) (auto simp: compare_try_def py_bind_def)
  from assms ex obtain pd where pr: "pr = JObj pd"
    by (cases pr) (auto simp: compare_try_def py_bind_def)
  show ?thesis
  proof (cases "map_of ed ''arguments''")
    case None
    with assms ex pr show ?thesis
      by (auto simp: compare_try_def py_bind_def)
  next
    case (Some args)
    show ?thesis
    proof (cases args)
      case (JObj ea)
      with assms ex pr Some show ?thesis
        by (auto simp: compare_try_def py_bind_def weak_map_of_SomeI
            split: if_splits option.splits sum.splits)
    qed (use assms ex pr Some in \<open>auto simp: compare_try_def py_bind_def split: if_splits\<close>)
  qed
qed

lemma compare_coordinates_present:
  assumes "compare_coordinates ex pr = Inr (Some d)"
  shows "\<exists>ed ea x y. ex = JObj ed \<and> map_of ed ''arguments'' = Some (JObj ea) \<and>
           map_of ea ''longitude'' = Some x \<and> map_of ea ''latitude'' = Some y"
  using assms compare_try_present [of ex pr d]
  by (auto simp: compare_coordinates_def split: sum.splits if_splits)

text \<open>
  Claim C5, as the code has it. A present \<open>coord_error\<close> means that both texts extracted to
  non-empty mappings and that the arguments of the expected record are a mapping with a
  longitude and a latitude; in every other case it is absent. The predicted record need not
  have the two arguments.
\<close>

theorem coordinate_error_present_only:
  assumes "evaluate_sample expected_str predicted_str instr = Inr r"
    and "coord_error r = Some d"
  shows "\<exists>ed pd ea x y.
           parse_json_output expected_str = JObj ed \<and> ed \<noteq> [] \<and>
           parse_json_output predicted_str = JObj pd \<and> pd \<noteq> [] \<and>
           map_of ed ''arguments'' = Some (JObj ea) \<and>
           map_of ea ''longitude'' = Some x \<and> map_of ea ''latitude'' = Some y"
proof -
  let ?e = "parse_json_output expected_str" and ?p = "parse_json_output predicted_str"
  from assms have t: "truthy ?e \<and> truthy ?p"
    by (auto simp: evaluate_sample_def py_bind_def Let_def split: sum.splits if_splits)
  with assms have cc: "compare_coordinates ?e ?p = Inr (Some d)"
    by (auto simp: evaluate_sample_def py_bind_def Let_def split: sum.splits if_splits)
  from assms t obtain pd where pd: "?p = JObj pd"
    by (auto simp: evaluate_sample_def py_bind_def Let_def split: sum.splits dest: py_get_Inr)
  from compare_coordinates_present [OF cc] obtain ed ea x y where
    "?e = JObj ed" "map_of ed ''arguments'' = Some (JObj ea)"
    "map_of ea ''longitude'' = Some x" "map_of ea ''latitude'' = Some y"
    by blast
  with t pd show ?thesis
    by auto
qed

theorem coordinate_error_present_only_witness:
  "\<exists>ed pd ea x y.
     parse_json_output ''{\"tool\":\"flyTo\",\"arguments\":{\"longitude\":10.0,\"latitude\":20.0}}'' = JObj ed \<and>
     ed \<noteq> [] \<and>
     parse_json_output ''{\"tool\":\"flyTo\",\"arguments\":{\"longitude\":10.0,\"latitude\":20.0}}'' = JObj pd \<and>
     pd \<noteq> [] \<and>
     map_of ed ''arguments'' = Some (JObj ea) \<and>
     map_of ea ''longitude'' = Some x \<and> map_of ea ''latitude'' = Some y"
  using coordinate_error_present_only [OF eval_identical, of 0] by simp

text \<open>
  The claim as stated asks both records to expose the two arguments. Here the predicted record
  has no arguments at all, and the error is present: the distance of (3, 4) from (0, 0).
\<close>

theorem missing_prediction_coordinates_counterexample:
  "parse_json_output ''{\"tool\":\"flyTo\",\"arguments\":{}}'' =
     JObj [(''tool'', JStr ''flyTo''), (''arguments'', JObj [])] \<and>
   evaluate_sample ''{\"tool\":\"flyTo\",\"arguments\":{\"longitude\":3.0,\"latitude\":4.0}}''
                   ''{\"tool\":\"flyTo\",\"arguments\":{}}'' ''go'' =
     Inr \<lparr>instruction = ''go'',
          expected = ''{\"tool\":\"flyTo\",\"arguments\":{\"longitude\":3.0,\"latitude\":4.0}}'',
          predicted = ''{\"tool\":\"flyTo\",\"arguments\":{}}'',
          tool_match = True, json_valid = True, coord_error = Some 5, exact_match = False\<rparr>"
proof -
  have "strip ''{\"tool\":\"flyTo\",\"arguments\":{\"longitude\":3.0,\"latitude\":4.0}}'' \<noteq>
        strip ''{\"tool\":\"flyTo\",\"arguments\":{}}''"
    by code_simp
  then show ?thesis
    by (simp add: evaluate_sample_def py_bind_def parse_fly_3_4 parse_fly_noargs
        compare_coordinates_def compare_try_def sqrt_25)
qed

section \<open>Extraction of an embedded document\<close>















section \<open>The loop of the progress monitor\<close>

lemma search_iter_example:
  "search iter_pattern (strip ''Iter 10: Train loss 1.234, It/sec 2.1, Tokens/sec 512.0, Peak mem 4.2'') =
     Some [''10'', ''1.234'', ''2.1'', ''512.0'', ''4.2'']"
  by code_simp

lemma search_val_example:
  "search val_pattern (strip ''Iter 10: Train loss 1.234, It/sec 2.1, Tokens/sec 512.0, Peak mem 4.2'') = None"
  by code_simp

lemma search_save_example:
  "search save_pattern (strip ''Iter 10: Train loss 1.234, It/sec 2.1, Tokens/sec 512.0, Peak mem 4.2'') = None"
  by code_simp

lemma search_iter_malformed:
  "search iter_pattern (strip ''Iter 10: Train loss 1.234, It/sec 2.1, Tokens/sec 512.0, Peak mem 4.2.'') =
     Some [''10'', ''1.234'', ''2.1'', ''512.0'', ''4.2.'']"
  by code_simp

lemma float_malformed: "float_of_str ''4.2.'' = None"
  by code_simp

lemma floats_example:
  "float_of_str ''1.234'' = Some 1.234" "float_of_str ''512.0'' = Some 512"
  "float_of_str ''4.2'' = Some 4.2" "int_of_str ''10'' = Some 10"
  by code_simp+

text \<open>
  Claim C7. The claim asks for exactly one render on every line that matches the iteration
  pattern. The class \<^verbatim>\<open>[\d.]+\<close> accepts texts that \<open>float()\<close> rejects: the line below is the
  line of the claim with a full stop at its end. The pattern matches it, the last group is
  \<open>4.2.\<close>, and \<open>float("4.2.")\<close> raises \<open>ValueError\<close>, which the loop does not catch: the
  monitor ends without a render.
\<close>

theorem malformed_number_aborts:
  "search iter_pattern (strip ''Iter 10: Train loss 1.234, It/sec 2.1, Tokens/sec 512.0, Peak mem 4.2.'') =
     Some [''10'', ''1.234'', ''2.1'', ''512.0'', ''4.2.''] \<and>
   process_line total_iters bar_width m
     ''Iter 10: Train loss 1.234, It/sec 2.1, Tokens/sec 512.0, Peak mem 4.2.'' = Inl ValueError"
  by (simp add: process_line_def search_iter_malformed parse_iteration_def py_bind_def group_def
      py_float_str_def py_int_str_def floats_example float_malformed del: search.simps)

theorem malformed_number_aborts_witness:
  "process_line 100 50
     \<lparr>current_iter = 0, train_loss = 0, val_loss = 0, tokens_per_sec = 0, peak_mem = 0,
      saved = False, renders = []\<rparr>
     ''Iter 10: Train loss 1.234, It/sec 2.1, Tokens/sec 512.0, Peak mem 4.2.'' = Inl ValueError"
  using malformed_number_aborts
    [of 100 50 "\<lparr>current_iter = 0, train_loss = 0, val_loss = 0, tokens_per_sec = 0,
                  peak_mem = 0, saved = False, renders = []\<rparr>"]
  by (rule conjunct2)

text \<open>
  On the lines whose numbers \<open>float()\<close> accepts the loop does what the claim says: one render
  for a line that matches the iteration or the validation pattern, none otherwise, and a line
  that matches neither changes at most the save flag.
\<close>

lemma process_line_renders:
  assumes "process_line total_iters bar_width m raw = Inr m'"
  shows "length (renders m') = length (renders m) +
           (if search iter_pattern (strip raw) \<noteq> None \<or> search val_pattern (strip raw) \<noteq> None
            then 1 else 0)"
  using assms
  by (auto simp: process_line_def parse_iteration_def parse_validation_def check_save_def render_def
      py_bind_def Let_def simp del: search.simps split: option.splits sum.splits if_splits)

lemma process_line_unmatched:
  assumes "search iter_pattern (strip raw) = None" and "search val_pattern (strip raw) = None"
  shows "process_line total_iters bar_width m raw =
           Inr (if search save_pattern (strip raw) \<noteq> None then m\<lparr>saved := True\<rparr> else m)"
  using assms
  by (simp add: process_line_def parse_iteration_def parse_validation_def check_save_def
      py_bind_def del: search.simps)

lemma process_line_example:
  "process_line 100 50
     \<lparr>current_iter = 0, train_loss = 0, val_loss = 0, tokens_per_sec = 0, peak_mem = 0,
      saved = False, renders = []\<rparr>
     ''Iter 10: Train loss 1.234, It/sec 2.1, Tokens/sec 512.0, Peak mem 4.2'' =
   Inr \<lparr>current_iter = 10, train_loss = 1.234, val_loss = 0, tokens_per_sec = 512, peak_mem = 4.2,
        saved = False,
        renders = [\<lparr>shown_iter = 10, shown_total = 100, shown_loss = 1.234, shown_val = None,
                    shown_tokens = 512, shown_mem = 4.2, save_indicator = False,
                    progress = (5, 45, 10)\<rparr>]\<rparr>"
  by (simp add: process_line_def search_iter_example search_val_example search_save_example
      parse_iteration_def parse_validation_def check_save_def render_def py_bind_def group_def
      py_float_str_def py_int_str_def floats_example create_progress_bar_def trunc_def
      del: search.simps)

section \<open>The per-tool breakdown\<close>

lemma map_of_bump:
  "map_of (bump k tm st) k' =
     (if k' = k then
        Some \<lparr>total = (case map_of st k of None \<Rightarrow> 0 | Some e \<Rightarrow> total e) + 1,
              correct = (case map_of st k of None \<Rightarrow> 0 | Some e \<Rightarrow> correct e) + (if tm then 1 else 0)\<rparr>
      else map_of st k')"
  by (auto simp: bump_def update_conv' Let_def split: option.splits)

lemma distinct_bump: "distinct (map fst st) \<Longrightarrow> distinct (map fst (bump k tm st))"
  by (simp add: bump_def Let_def distinct_update)

text \<open>One step of the loop: a sample is skipped, or counted in its bucket, or the loop fails.\<close>

lemma tool_stats_loop_Cons:
  assumes "tool_stats_loop (r # rs) st = Inr st'"
  shows "(bucket r = None \<and> \<not> truthy (parse_json_output (expected r)) \<and>
            tool_stats_loop rs st = Inr st') \<or>
         (\<exists>k. bucket r = Some k \<and> truthy (parse_json_output (expected r)) \<and>
            tool_stats_loop rs (bump k (tool_match r) st) = Inr st')"
proof (cases "truthy (parse_json_output (expected r))")
  case False
  then have "bucket r = None"
    by (cases "parse_json_output (expected r)") (auto simp: bucket_def)
  with False assms show ?thesis
    by simp
next
  case True
  with assms obtain tool k where
    t: "py_get (parse_json_output (expected r)) ''tool'' (JStr ''unknown'') = Inr tool"
    and k: "dict_key tool = Inr k"
    and l: "tool_stats_loop rs (bump k (tool_match r) st) = Inr st'"
    by (auto simp: py_bind_def split: sum.splits)
  from t obtain d where d: "parse_json_output (expected r) = JObj d"
    by (cases "parse_json_output (expected r)") auto
  with True t k have "bucket r = Some k"
    by (auto simp: bucket_def split: option.splits)
  with True l show ?thesis
    by blast
qed

lemma tool_stats_loop_map_of:
  assumes "tool_stats_loop rs st = Inr st'"
  shows "map_of st' k =
     (let t = length (filter (\<lambda>r. bucket r = Some k) rs);
          c = length (filter (\<lambda>r. bucket r = Some k \<and> tool_match r) rs)
      in case map_of st k of
           None \<Rightarrow> if t = 0 then None else Some \<lparr>total = t, correct = c\<rparr>
         | Some e \<Rightarrow> Some \<lparr>total = total e + t, correct = correct e + c\<rparr>)"
  using assms
proof (induction rs arbitrary: st)
  case Nil
  then show ?case
    by (auto split: option.splits)
next
  case (Cons r rs)
  from tool_stats_loop_Cons [OF Cons.prems] show ?case
  proof (elim disjE conjE exE)
    assume "bucket r = None" and "tool_stats_loop rs st = Inr st'"
    with Cons.IH [of st] show ?thesis
      by simp
  next
    fix k'
    assume b: "bucket r = Some k'"
      and l: "tool_stats_loop rs (bump k' (tool_match r) st) = Inr st'"
    from Cons.IH [OF l] b show ?thesis
      by (auto simp: map_of_bump Let_def split: option.splits)
  qed
qed

lemma tool_stats_loop_distinct:
  assumes "tool_stats_loop rs st = Inr st'" and "distinct (map fst st)"
  shows "distinct (map fst st')"
  using assms
proof (induction rs arbitrary: st)
  case Nil
  then show ?case
    by simp
next
  case (Cons r rs)
  from tool_stats_loop_Cons [OF Cons.prems(1)] Cons.IH Cons.prems(2) show ?case
    by (auto dest: distinct_bump)
qed

lemma tool_stats_loop_succeeds:
  "(\<exists>st'. tool_stats_loop rs st = Inr st') \<longleftrightarrow> (\<forall>r \<in> set rs. sample_ok r)"
proof (induction rs arbitrary: st)
  case Nil
  then show ?case
    by simp
next
  case (Cons r rs)
  show ?case
  proof (cases "truthy (parse_json_output (expected r))")
    case False
    with Cons [of st] show ?thesis
      by (simp add: sample_ok_def)
  next
    case True
    show ?thesis
    proof (cases "py_bind (py_get (parse_json_output (expected r)) ''tool'' (JStr ''unknown'')) dict_key")
      case (Inl e)
      with True show ?thesis
        by (auto simp: sample_ok_def py_bind_def split: sum.splits)
    next
      case (Inr k)
      with True Cons [of "bump k (tool_match r) st"] show ?thesis
        by (auto simp: sample_ok_def py_bind_def split: sum.splits)
    qed
  qed
qed

lemma key_rank_inj: "key_rank a = key_rank b \<Longrightarrow> a = b"
  by (cases a; cases b) auto

lemma fst_tool_row [simp]: "fst (tool_row e) = fst e"
  by (simp add: tool_row_def)

lemma length_filter_mset:
  assumes "mset ys = mset xs"
  shows "length (filter P ys) = length (filter P xs)"
proof -
  have "mset (filter P ys) = mset (filter P xs)"
    using assms by simp
  then show ?thesis
    by (rule mset_eq_length)
qed

lemma coord_errors_mset:
  assumes "mset ys = mset xs"
  shows "sum_list (coord_errors ys) = sum_list (coord_errors xs)"
    and "length (coord_errors ys) = length (coord_errors xs)"
    and "(coord_errors ys \<noteq> []) = (coord_errors xs \<noteq> [])"
proof -
  have m: "mset (coord_errors ys) = mset (coord_errors xs)"
    using assms by (simp add: coord_errors_def)
  from m show "sum_list (coord_errors ys) = sum_list (coord_errors xs)"
    by (metis sum_mset_sum_list)
  from m show l: "length (coord_errors ys) = length (coord_errors xs)"
    by (rule mset_eq_length)
  from l show "(coord_errors ys \<noteq> []) = (coord_errors xs \<noteq> [])"
    by (metis length_0_conv)
qed

lemma distinct_key_rank:
  assumes "distinct (map fst st)"
  shows "distinct (map (\<lambda>e. key_rank (fst e)) st)"
proof -
  have "inj_on key_rank (set (map fst st))"
    by (rule inj_onI) (rule key_rank_inj)
  with assms have "distinct (map key_rank (map fst st))"
    by (simp only: distinct_map simp_thms)
  then show ?thesis
    by (simp only: map_map comp_def)
qed

lemma tool_stats_loop_mset:
  assumes "mset ys = mset xs" and "tool_stats_loop xs [] = Inr sx"
  shows "\<exists>sy. tool_stats_loop ys [] = Inr sy \<and> mset sy = mset sx \<and> distinct (map fst sy)"
proof -
  have "\<forall>r \<in> set xs. sample_ok r"
    using tool_stats_loop_succeeds [of xs "[]"] assms(2) by blast
  moreover have "set ys = set xs"
    using assms(1) by (rule mset_eq_setD)
  ultimately obtain sy where sy: "tool_stats_loop ys [] = Inr sy"
    using tool_stats_loop_succeeds [of ys "[]"] by auto
  have dx: "distinct (map fst sx)" and dy: "distinct (map fst sy)"
    using tool_stats_loop_distinct [OF assms(2)] tool_stats_loop_distinct [OF sy] by simp_all
  have "map_of sy k = map_of sx k" for k
    using tool_stats_loop_map_of [OF sy, of k] tool_stats_loop_map_of [OF assms(2), of k]
      length_filter_mset [OF assms(1)]
    by simp
  then have "map_of sy = map_of sx"
    by (rule ext)
  with dx dy have "set sy = set sx"
    by (simp add: map_of_inject_set)
  moreover from dx dy have "distinct sx" "distinct sy"
    by (auto dest: distinct_map [THEN iffD1])
  ultimately have "mset sy = mset sx"
    by (simp add: set_eq_iff_mset_eq_distinct)
  with sy dy show ?thesis
    by blast
qed

lemma sorted_items_mset:
  assumes "mset sy = mset sx" and "distinct (map fst sy)"
  shows "sorted_items sy = sorted_items sx"
proof -
  let ?f = "\<lambda>e :: tool_key \<times> tool_stat. key_rank (fst e)"
  have "length sy = length sx"
    using assms(1) by (rule mset_eq_length)
  moreover have "set sy = set sx"
    using assms(1) by (rule mset_eq_setD)
  moreover have "sort_key ?f sy = sort_key ?f sx"
  proof (rule sort_key_inj_key_eq)
    show "mset sy = mset (sort_key ?f sx)"
      using assms(1) by simp
    show "inj_on ?f (set sy)"
      using distinct_key_rank [OF assms(2)] by (simp add: distinct_map)
    show "sorted (map ?f (sort_key ?f sx))"
      by (rule sorted_sort_key)
  qed
  ultimately show ?thesis
    by (simp add: sorted_items_def list_all_iff)
qed

lemma sorted_items_Inr:
  assumes "sorted_items st = Inr items"
  shows "items = sort_key (\<lambda>e. key_rank (fst e)) st"
  using assms by (auto simp: sorted_items_def split: if_splits)

lemma py_bind_InrE:
  assumes "py_bind m f = Inr y"
  obtains x where "m = Inr x" and "f x = Inr y"
  using assms by (cases m) (simp_all add: py_bind_def)

lemma print_results_Inr:
  assumes "print_results results = Inr rep"
  shows "\<exists>stats. tool_stats_loop results [] = Inr stats \<and>
           per_tool rep = map tool_row (sort_key (\<lambda>e. key_rank (fst e)) stats)"
proof -
  from assms [unfolded print_results_def Let_def]
  obtain stats items where "tool_stats_loop results [] = Inr stats"
    and "sorted_items stats = Inr items" and "per_tool rep = map tool_row items"
    by (elim py_bind_InrE) auto
  then show ?thesis
    using sorted_items_Inr by blast
qed

lemma rank_tool_row:
  "map (\<lambda>row. key_rank (fst row)) (map tool_row items) = map (\<lambda>e. key_rank (fst e)) items"
  by (induction items) simp_all

lemma fst_tool_row_map: "map fst (map tool_row items) = map fst items"
  by (induction items) simp_all

lemma per_tool_sorted:
  assumes "print_results results = Inr rep"
  shows "sorted (map (\<lambda>row. key_rank (fst row)) (per_tool rep))"
    and "distinct (map fst (per_tool rep))"
proof -
  let ?f = "\<lambda>e :: tool_key \<times> tool_stat. key_rank (fst e)"
  from print_results_Inr [OF assms] obtain stats where
    l: "tool_stats_loop results [] = Inr stats"
    and p: "per_tool rep = map tool_row (sort_key ?f stats)"
    by blast
  have "sorted (map ?f (sort_key ?f stats))"
    by (rule sorted_sort_key)
  then show "sorted (map (\<lambda>row. key_rank (fst row)) (per_tool rep))"
    by (simp only: p rank_tool_row)
  have "distinct (map fst stats)"
    using tool_stats_loop_distinct [OF l] by simp
  moreover have "mset (map fst (sort_key ?f stats)) = mset (map fst stats)"
    by simp
  ultimately have "distinct (map fst (sort_key ?f stats))"
    by (metis mset_eq_imp_distinct_iff)
  then show "distinct (map fst (per_tool rep))"
    by (simp only: p fst_tool_row_map)
qed

lemma map_of_tool_row:
  "map_of (map tool_row items) k =
     map_option (\<lambda>e. (correct e, total e,
                       if total e > 0 then 100 * real (correct e) / real (total e) else 0))
       (map_of items k)"
  by (induction items) (auto simp: tool_row_def)

lemma length_filter_disj:
  assumes "\<And>x. x \<in> set xs \<Longrightarrow> \<not> (P x \<and> Q x)"
  shows "length (filter (\<lambda>x. P x \<or> Q x) xs) = length (filter P xs) + length (filter Q xs)"
  using assms by (induction xs) auto

lemma bucket_counts_sum:
  assumes "distinct ks"
  shows "sum_list (map (\<lambda>k. length (filter (\<lambda>r. f r = Some k) rs)) ks) =
           length (filter (\<lambda>r. f r \<in> Some ` set ks) rs)"
  using assms
proof (induction ks)
  case Nil
  show ?case
    by simp
next
  case (Cons k ks)
  have "length (filter (\<lambda>r. f r = Some k \<or> f r \<in> Some ` set ks) rs) =
      length (filter (\<lambda>r. f r = Some k) rs) + length (filter (\<lambda>r. f r \<in> Some ` set ks) rs)"
    using Cons.prems by (intro length_filter_disj) auto
  moreover have "(\<lambda>r. f r \<in> Some ` set (k # ks)) = (\<lambda>r. f r = Some k \<or> f r \<in> Some ` set ks)"
    by auto
  ultimately show ?case
    using Cons by simp
qed

lemma per_tool_totals:
  assumes d: "distinct (map fst rows)"
    and m: "\<And>k. map_of rows k =
              (if length (filter (\<lambda>r. bucket r = Some k) results) = 0 then None
               else Some (g k, length (filter (\<lambda>r. bucket r = Some k) results), h k))"
  shows "sum_list (map (\<lambda>row. fst (snd (snd row))) rows) =
           length (filter (\<lambda>r. bucket r \<noteq> None) results)"
proof -
  let ?t = "\<lambda>k. length (filter (\<lambda>r. bucket r = Some k) results)"
  have row: "fst (snd (snd row)) = ?t (fst row)" if "row \<in> set rows" for row
  proof -
    obtain k c t a where r: "row = (k, c, t, a)"
      by (cases row)
    with that d have "map_of rows k = Some (c, t, a)"
      by simp
    with m [of k] r show ?thesis
      by (simp split: if_splits)
  qed
  have keys: "bucket r \<in> Some ` set (map fst rows) \<longleftrightarrow> bucket r \<noteq> None"
    if "r \<in> set results" for r
  proof (cases "bucket r")
    case None
    then show ?thesis
      by auto
  next
    case (Some k)
    with that have "filter (\<lambda>r. bucket r = Some k) results \<noteq> []"
      by (auto simp: filter_empty_conv)
    then have "map_of rows k \<noteq> None"
      using m [of k] by simp
    then have "k \<in> set (map fst rows)"
      by (simp add: map_of_eq_None_iff)
    with Some show ?thesis
      by auto
  qed
  have "sum_list (map (\<lambda>row. fst (snd (snd row))) rows) = sum_list (map ?t (map fst rows))"
    using row by (simp add: comp_def cong: map_cong)
  also have "\<dots> = length (filter (\<lambda>r. bucket r \<in> Some ` set (map fst rows)) results)"
    using d by (rule bucket_counts_sum)
  also have "\<dots> = length (filter (\<lambda>r. bucket r \<noteq> None) results)"
  proof -
    have "filter (\<lambda>r. bucket r \<in> Some ` set (map fst rows)) results =
        filter (\<lambda>r. bucket r \<noteq> None) results"
      by (rule filter_cong [OF refl]) (rule keys)
    then show ?thesis
      by (rule arg_cong)
  qed
  finally show ?thesis .
qed

text \<open>
  Claim C2, as the code has it. On a batch for which the report is produced, every sample
  whose expected text extracts to a non-empty mapping is counted in exactly one bucket, the
  one of the tool named in its expected record, or \<open>"unknown"\<close> when that record has no tool
  field; a sample whose expected text yields nothing (or an empty value) is counted in no
  bucket. The total of a bucket is the number of its samples, its correct count the number
  of those with \<open>tool_match\<close>, and the totals add up to the number of samples that have a
  bucket.
\<close>

theorem per_tool_breakdown:
  assumes "print_results results = Inr rep"
  shows "distinct (map fst (per_tool rep)) \<and>
         (\<forall>k. map_of (per_tool rep) k =
            (let t = length (filter (\<lambda>r. bucket r = Some k) results);
                 c = length (filter (\<lambda>r. bucket r = Some k \<and> tool_match r) results)
             in if t = 0 then None else Some (c, t, 100 * real c / real t))) \<and>
         sum_list (map (\<lambda>row. fst (snd (snd row))) (per_tool rep)) =
           length (filter (\<lambda>r. bucket r \<noteq> None) results)"
proof -
  let ?f = "\<lambda>e :: tool_key \<times> tool_stat. key_rank (fst e)"
  from print_results_Inr [OF assms] obtain stats where
    l: "tool_stats_loop results [] = Inr stats"
    and p: "per_tool rep = map tool_row (sort_key ?f stats)"
    by blast
  have d: "distinct (map fst stats)"
    using tool_stats_loop_distinct [OF l] by simp
  have "mset (map fst (sort_key ?f stats)) = mset (map fst stats)"
    by simp
  with d have "distinct (map fst (sort_key ?f stats))"
    by (metis mset_eq_imp_distinct_iff)
  with d have m: "map_of (sort_key ?f stats) = map_of stats"
    by (simp add: map_of_inject_set)
  have mk: "map_of (per_tool rep) k =
      (let t = length (filter (\<lambda>r. bucket r = Some k) results);
           c = length (filter (\<lambda>r. bucket r = Some k \<and> tool_match r) results)
       in if t = 0 then None else Some (c, t, 100 * real c / real t))" for k
    using tool_stats_loop_map_of [OF l, of k]
    by (simp add: p map_of_tool_row m Let_def)
  have "sum_list (map (\<lambda>row. fst (snd (snd row))) (per_tool rep)) =
      length (filter (\<lambda>r. bucket r \<noteq> None) results)"
    by (rule per_tool_totals
        [OF per_tool_sorted(2) [OF assms],
          where g = "\<lambda>k. length (filter (\<lambda>r. bucket r = Some k \<and> tool_match r) results)"
            and h = "\<lambda>k. 100 * real (length (filter (\<lambda>r. bucket r = Some k \<and> tool_match r) results)) /
                              real (length (filter (\<lambda>r. bucket r = Some k) results))"])
      (simp add: mk Let_def)
  with mk per_tool_sorted(2) [OF assms] show ?thesis
    by blast
qed

theorem per_tool_breakdown_witness:
  "print_results [sample_hit, sample_miss, sample_zoom] = Inr report_three \<and>
   distinct (map fst (per_tool report_three)) \<and>
   (\<forall>k. map_of (per_tool report_three) k =
      (let t = length (filter (\<lambda>r. bucket r = Some k) [sample_hit, sample_miss, sample_zoom]);
           c = length (filter (\<lambda>r. bucket r = Some k \<and> tool_match r) [sample_hit, sample_miss, sample_zoom])
       in if t = 0 then None else Some (c, t, 100 * real c / real t))) \<and>
   sum_list (map (\<lambda>row. fst (snd (snd row))) (per_tool report_three)) =
     length (filter (\<lambda>r. bucket r \<noteq> None) [sample_hit, sample_miss, sample_zoom])"
  by (rule conjI [OF print_results_three per_tool_breakdown [OF print_results_three]])

lemma bucket_examples:
  "bucket sample_hit = Some (KStr ''flyTo'')" "bucket sample_miss = Some (KStr ''flyTo'')"
  "bucket sample_zoom = Some (KStr ''zoom'')"
  by code_simp+

text \<open>
  The claim as stated puts a sample whose expected text does not extract into the
  \<open>"unknown"\<close> bucket. The loop skips it: the per-tool table of this batch is empty.
\<close>

theorem unextracted_expected_counterexample:
  "print_results [\<lparr>instruction = ''go'', expected = ''not json'', predicted = ''{\"tool\":\"flyTo\"}'',
                   tool_match = False, json_valid = True, coord_error = None, exact_match = False\<rparr>] =
     Inr \<lparr>total_examples = 1, tool_accuracy = (0, 0), json_valid_row = (1, 100),
          exact_match_row = (0, 0), avg_coord_error = None, per_tool = []\<rparr>"
  by code_simp

section \<open>The rounding of a sum\<close>

lemma pow2_pos: "0 < pow2 e"
  by (simp add: pow2_def)

lemma pow2_powr: "pow2 e = 2 powr real_of_int e"
proof (cases "0 \<le> e")
  case True
  then show ?thesis
    by (simp add: pow2_def powr_realpow [symmetric])
next
  case False
  then have "2 powr real_of_int e = 1 / 2 powr real_of_int (- e)"
    by (simp add: powr_minus_divide)
  also have "\<dots> = 1 / 2 ^ nat (- e)"
    using False by (simp add: powr_realpow [symmetric])
  finally show ?thesis
    using False by (simp add: pow2_def)
qed

lemma pow2_diff: "pow2 (e - 52) = pow2 e / 2 ^ 52"
proof -
  have "pow2 (e - 52) = 2 powr (real_of_int e - 52)"
    by (simp add: pow2_powr)
  also have "\<dots> = 2 powr real_of_int e / 2 powr 52"
    by (rule powr_diff)
  also have "2 powr (52 :: real) = 2 ^ 52"
    by simp
  finally show ?thesis
    by (simp add: pow2_powr)
qed

lemma binade_le:
  assumes "0 < a"
  shows "pow2 (binade a) \<le> a"
proof (cases "1 \<le> a")
  case True
  then have p: "0 < \<lfloor>a\<rfloor>"
    by linarith
  from bitlen_bounds [OF p] have "2 ^ nat (bitlen \<lfloor>a\<rfloor> - 1) \<le> \<lfloor>a\<rfloor>"
    by blast
  then have "real_of_int (2 ^ nat (bitlen \<lfloor>a\<rfloor> - 1)) \<le> real_of_int \<lfloor>a\<rfloor>"
    by (rule of_int_le_iff [THEN iffD2])
  then have "(2 :: real) ^ nat (bitlen \<lfloor>a\<rfloor> - 1) \<le> real_of_int \<lfloor>a\<rfloor>"
    by simp
  also have "\<dots> \<le> a"
    by (rule of_int_floor_le)
  finally have "(2 :: real) ^ nat (bitlen \<lfloor>a\<rfloor> - 1) \<le> a" .
  moreover have "0 \<le> bitlen \<lfloor>a\<rfloor> - 1"
    using p by (simp add: bitlen_alt_def)
  ultimately show ?thesis
    using True by (simp add: binade_def pow2_def)
next
  case False
  with assms have "1 < 1 / a"
    by simp
  then have p: "0 < \<lfloor>1 / a\<rfloor>"
    by linarith
  let ?b = "\<lfloor>1 / a\<rfloor>"
  from bitlen_bounds [OF p] have "?b < 2 ^ nat (bitlen ?b)"
    by blast
  then have "?b + 1 \<le> 2 ^ nat (bitlen ?b)"
    by simp
  then have "real_of_int (?b + 1) \<le> real_of_int (2 ^ nat (bitlen ?b))"
    by (rule of_int_le_iff [THEN iffD2])
  then have "real_of_int (?b + 1) \<le> 2 ^ nat (bitlen ?b)"
    by simp
  moreover have "1 / a < real_of_int (?b + 1)"
    by linarith
  ultimately have "1 / a \<le> 2 ^ nat (bitlen ?b)"
    by (rule less_imp_le [OF less_le_trans [rotated]])
  with assms have "1 / 2 ^ nat (bitlen ?b) \<le> a"
    by (simp add: field_simps)
  moreover have "0 < bitlen ?b"
    using p by (simp add: bitlen_alt_def)
  ultimately show ?thesis
    using False by (simp add: binade_def pow2_def)
qed

lemma round_half_even_error: "\<bar>real_of_int (round_half_even m) - m\<bar> \<le> 1 / 2"
  unfolding round_half_even_def Let_def
  by (simp; linarith)

text \<open>The relative error of a rounding is at most the unit roundoff.\<close>

lemma round_double_error: "\<bar>round_double x - x\<bar> \<le> \<bar>x\<bar> / 2 ^ 53"
proof (cases "x = 0")
  case True
  then show ?thesis
    by (simp add: round_double_def)
next
  case False
  define a where "a = \<bar>x\<bar>"
  define q where "q = pow2 (binade a - 52)"
  define k where "k = round_half_even (a / q)"
  have a: "0 < a"
    using False by (simp add: a_def)
  have q: "0 < q"
    by (simp add: q_def pow2_pos)
  have "q = pow2 (binade a) / 2 ^ 52"
    by (simp add: q_def pow2_diff)
  with binade_le [OF a] have qa: "q \<le> a / 2 ^ 52"
    by (simp add: field_simps)
  have "real_of_int k * q - a = (real_of_int k - a / q) * q"
    using q by (simp add: field_simps)
  then have "\<bar>real_of_int k * q - a\<bar> = \<bar>real_of_int k - a / q\<bar> * \<bar>q\<bar>"
    by (simp only: abs_mult)
  also have "\<dots> = \<bar>real_of_int k - a / q\<bar> * q"
    using q by simp
  also have "\<dots> \<le> 1 / 2 * q"
    using q round_half_even_error [of "a / q"] by (simp add: k_def)
  also have "\<dots> \<le> a / 2 ^ 53"
    using qa by simp
  finally have e: "\<bar>real_of_int k * q - a\<bar> \<le> a / 2 ^ 53" .
  have "round_double x = (if x < 0 then - (real_of_int k * q) else real_of_int k * q)"
    using False by (simp add: round_double_def Let_def k_def q_def a_def)
  then have "\<bar>round_double x - x\<bar> = \<bar>real_of_int k * q - a\<bar>"
    by (auto simp: a_def)
  with e show ?thesis
    by (simp add: a_def)
qed

lemma unit_roundoff_range: "0 \<le> unit_roundoff" "unit_roundoff \<le> 1"
  by (simp_all add: unit_roundoff_def)

lemma round_double_bounds:
  assumes "0 \<le> x"
  shows "(1 - unit_roundoff) * x \<le> round_double x"
    and "round_double x \<le> (1 + unit_roundoff) * x"
proof -
  have "\<bar>round_double x - x\<bar> \<le> unit_roundoff * x"
    using round_double_error [of x] assms by (simp add: unit_roundoff_def)
  then show "(1 - unit_roundoff) * x \<le> round_double x"
    and "round_double x \<le> (1 + unit_roundoff) * x"
    by (simp_all add: abs_le_iff algebra_simps)
qed

text \<open>
  Each addition of the loop widens the relative error of the accumulator by one factor:
  after \<open>k\<close> additions of numbers that are not negative, the accumulator is the exact sum \<open>A\<close>
  up to the factors \<open>(1 - u) ^ k\<close> and \<open>(1 + u) ^ k\<close>.
\<close>

lemma foldl_float_add_bounds:
  assumes "\<forall>x \<in> set xs. 0 \<le> x" and "0 \<le> A"
    and "(1 - unit_roundoff) ^ k * A \<le> acc" and "acc \<le> (1 + unit_roundoff) ^ k * A"
  shows "(1 - unit_roundoff) ^ (k + length xs) * (A + sum_list xs) \<le> foldl float_add acc xs \<and>
         foldl float_add acc xs \<le> (1 + unit_roundoff) ^ (k + length xs) * (A + sum_list xs)"
  using assms
proof (induction xs arbitrary: acc A k)
  case Nil
  then show ?case
    by simp
next
  case (Cons x xs)
  let ?l = "1 - unit_roundoff" and ?h = "1 + unit_roundoff"
  have l: "0 \<le> ?l" "?l \<le> 1" and h: "1 \<le> ?h"
    using unit_roundoff_range by simp_all
  have x: "0 \<le> x"
    using Cons.prems(1) by simp
  have lk: "0 \<le> ?l ^ k" "?l ^ k \<le> 1"
    using l by (simp_all add: power_le_one)
  have hk: "1 \<le> ?h ^ k"
    using h by (rule one_le_power)
  have "0 \<le> ?l ^ k * A"
    using lk(1) Cons.prems(2) by simp
  with Cons.prems(3) have acc: "0 \<le> acc"
    by simp
  have "?l ^ k * x \<le> 1 * x"
    using lk(2) x by (rule mult_right_mono)
  with Cons.prems(3) have lo: "?l ^ k * (A + x) \<le> acc + x"
    by (simp add: algebra_simps)
  have "1 * x \<le> ?h ^ k * x"
    using hk x by (rule mult_right_mono)
  with Cons.prems(4) have hi: "acc + x \<le> ?h ^ k * (A + x)"
    by (simp add: algebra_simps)
  have s: "0 \<le> acc + x"
    using acc x by simp
  have "?l * (?l ^ k * (A + x)) \<le> ?l * (acc + x)"
    using lo l(1) by (rule mult_left_mono)
  also have "\<dots> \<le> float_add acc x"
    unfolding float_add_def using s by (rule round_double_bounds(1))
  finally have lo': "?l ^ Suc k * (A + x) \<le> float_add acc x"
    by (simp add: mult.assoc)
  have "float_add acc x \<le> ?h * (acc + x)"
    unfolding float_add_def using s by (rule round_double_bounds(2))
  also have "\<dots> \<le> ?h * (?h ^ k * (A + x))"
    using hi h by (intro mult_left_mono) simp_all
  finally have hi': "float_add acc x \<le> ?h ^ Suc k * (A + x)"
    by (simp add: mult.assoc)
  have "\<forall>x \<in> set xs. 0 \<le> x"
    using Cons.prems(1) by simp
  moreover have "0 \<le> A + x"
    using Cons.prems(2) x by simp
  ultimately have "?l ^ (Suc k + length xs) * (A + x + sum_list xs) \<le> foldl float_add (float_add acc x) xs \<and>
      foldl float_add (float_add acc x) xs \<le> ?h ^ (Suc k + length xs) * (A + x + sum_list xs)"
    using lo' hi' by (rule Cons.IH)
  then show ?case
    by (simp add: add.assoc)
qed

lemma py_sum_bounds:
  assumes "\<forall>x \<in> set xs. 0 \<le> x"
  shows "(1 - unit_roundoff) ^ length xs * sum_list xs \<le> py_sum xs"
    and "py_sum xs \<le> (1 + unit_roundoff) ^ length xs * sum_list xs"
  using foldl_float_add_bounds [OF assms, of 0 0 0] by (simp_all add: py_sum_def)

lemma mean_bounds:
  assumes "\<forall>x \<in> set xs. 0 \<le> x"
  shows "(1 - unit_roundoff) ^ Suc (length xs) * (sum_list xs / real (length xs)) \<le>
           float_div (py_sum xs) (real (length xs))"
    and "float_div (py_sum xs) (real (length xs)) \<le>
           (1 + unit_roundoff) ^ Suc (length xs) * (sum_list xs / real (length xs))"
proof -
  let ?l = "1 - unit_roundoff" and ?h = "1 + unit_roundoff" and ?n = "real (length xs)"
  have l: "0 \<le> ?l" and h: "0 \<le> ?h"
    using unit_roundoff_range by simp_all
  have n: "0 \<le> ?n"
    by simp
  have S: "0 \<le> sum_list xs"
    using assms by (simp add: sum_list_nonneg)
  have "0 \<le> ?l ^ length xs * sum_list xs"
    using l S by simp
  with py_sum_bounds(1) [OF assms] have "0 \<le> py_sum xs"
    by simp
  then have q: "0 \<le> py_sum xs / ?n"
    by simp
  have "?l * (?l ^ length xs * sum_list xs / ?n) \<le> ?l * (py_sum xs / ?n)"
    using py_sum_bounds(1) [OF assms] l n by (intro mult_left_mono divide_right_mono)
  also have "\<dots> \<le> float_div (py_sum xs) ?n"
    unfolding float_div_def using q by (rule round_double_bounds(1))
  finally show "?l ^ Suc (length xs) * (sum_list xs / ?n) \<le> float_div (py_sum xs) ?n"
    by (simp add: mult.assoc)
  have "float_div (py_sum xs) ?n \<le> ?h * (py_sum xs / ?n)"
    unfolding float_div_def using q by (rule round_double_bounds(2))
  also have "\<dots> \<le> ?h * (?h ^ length xs * sum_list xs / ?n)"
    using py_sum_bounds(2) [OF assms] h n by (intro mult_left_mono divide_right_mono)
  finally show "float_div (py_sum xs) ?n \<le> ?h ^ Suc (length xs) * (sum_list xs / ?n)"
    by (simp add: mult.assoc)
qed

section \<open>Order of the samples\<close>

text \<open>The mean of a report is the rounded sum, in the order of the samples, by the count.\<close>

lemma print_results_avg:
  assumes "print_results xs = Inr rx"
  shows "avg_coord_error rx =
     (if coord_errors xs \<noteq> []
      then Some (float_div (py_sum (coord_errors xs)) (real (length (coord_errors xs))))
      else None)"
proof -
  from assms [unfolded print_results_def Let_def]
  obtain stats tp vp ep items where
    "rx = \<lparr>total_examples = length xs,
          tool_accuracy = (length (filter tool_match xs), tp),
          json_valid_row = (length (filter json_valid xs), vp),
          exact_match_row = (length (filter exact_match xs), ep),
          avg_coord_error =
            (if coord_errors xs \<noteq> []
             then Some (float_div (py_sum (coord_errors xs)) (real (length (coord_errors xs))))
             else None),
          per_tool = map tool_row items\<rparr>"
    by (elim py_bind_InrE) auto
  then show ?thesis
    by simp
qed

text \<open>A permutation changes the report in the mean only.\<close>

lemma print_results_mset:
  assumes "mset ys = mset xs" and "print_results xs = Inr rx"
  shows "print_results ys =
     Inr (rx\<lparr>avg_coord_error :=
            (if coord_errors ys \<noteq> []
             then Some (float_div (py_sum (coord_errors ys)) (real (length (coord_errors ys))))
             else None)\<rparr>)"
proof -
  from print_results_Inr [OF assms(2)] obtain sx where sx: "tool_stats_loop xs [] = Inr sx"
    by blast
  from tool_stats_loop_mset [OF assms(1) sx] obtain sy where
    sy: "tool_stats_loop ys [] = Inr sy" and m: "mset sy = mset sx" and d: "distinct (map fst sy)"
    by blast
  have len: "length ys = length xs"
    using assms(1) by (rule mset_eq_length)
  from assms(2) [unfolded print_results_def Let_def sx]
  obtain tp vp ep items where
    tp: "percentage (length (filter tool_match xs)) (length xs) = Inr tp"
    and vp: "percentage (length (filter json_valid xs)) (length xs) = Inr vp"
    and ep: "percentage (length (filter exact_match xs)) (length xs) = Inr ep"
    and items: "sorted_items sx = Inr items"
    and rx: "rx = \<lparr>total_examples = length xs,
          tool_accuracy = (length (filter tool_match xs), tp),
          json_valid_row = (length (filter json_valid xs), vp),
          exact_match_row = (length (filter exact_match xs), ep),
          avg_coord_error =
            (if coord_errors xs \<noteq> []
             then Some (float_div (py_sum (coord_errors xs)) (real (length (coord_errors xs))))
             else None),
          per_tool = map tool_row items\<rparr>"
    by (elim py_bind_InrE) auto
  show ?thesis
    by (simp add: print_results_def Let_def len length_filter_mset [OF assms(1)]
        sy sorted_items_mset [OF m d] tp vp ep items py_bind_def rx)
qed

lemma string_keys_ascending:
  assumes "sorted (map (\<lambda>row. key_rank (fst row)) rows)" and "distinct (map fst rows)"
  shows "sorted_wrt (\<lambda>a b. \<forall>s t. fst a = KStr s \<and> fst b = KStr t \<longrightarrow> s < t) rows"
proof -
  have "inj_on key_rank (set (map fst rows))"
    by (rule inj_onI) (rule key_rank_inj)
  with assms(2) have "distinct (map key_rank (map fst rows))"
    by (simp only: distinct_map simp_thms)
  then have "distinct (map (\<lambda>row. key_rank (fst row)) rows)"
    by (simp only: map_map comp_def)
  with assms(1) have "sorted_wrt (<) (map (\<lambda>row. key_rank (fst row)) rows)"
    by (simp only: strict_sorted_iff simp_thms)
  then have "sorted_wrt (\<lambda>a b. key_rank (fst a) < key_rank (fst b)) rows"
    by (simp only: sorted_wrt_map)
  then show ?thesis
    by (rule sorted_wrt_mono_rel [rotated]) auto
qed

lemma coord_errors_three:
  "coord_errors [sample_hit, sample_miss, sample_zoom] = [1, 2]"
  "coord_errors [sample_zoom, sample_hit, sample_miss] = [1, 2]"
  by (simp_all add: coord_errors_def sample_hit_def sample_miss_def sample_zoom_def)

text \<open>
  Claim C8, as the code has it. For a permutation \<open>ys\<close> of \<open>xs\<close>, \<open>print_results\<close> yields a
  report on \<open>ys\<close> exactly when it yields one on \<open>xs\<close>, and the two reports have the same
  totals, the same tool-accuracy, validity and exact-match rates and the same per-tool rows
  (the correct and total count of each tool); the mean coordinate error is present in both or
  in neither. The mean itself is a sum of floats taken in the order of the samples: the two
  reports are equal whenever the two sums are, and, the errors being distances and so not
  negative, either mean is the exact mean of the \<open>n\<close> errors up to the factors
  \<open>(1 - u) ^ (n + 1)\<close> and \<open>(1 + u) ^ (n + 1)\<close>, \<open>u\<close> the unit roundoff; beyond that it depends
  on the order. The rows of the per-tool table are in the order of their keys, each key once:
  strings in lexicographic order, whatever the order of the samples.
\<close>

theorem aggregation_order_insensitive:
  assumes "mset ys = mset xs"
  shows "((\<exists>ry. print_results ys = Inr ry) \<longleftrightarrow> (\<exists>rx. print_results xs = Inr rx)) \<and>
         (\<forall>rx. print_results xs = Inr rx \<longrightarrow>
            (\<exists>ry. print_results ys = Inr ry \<and>
               total_examples ry = total_examples rx \<and>
               tool_accuracy ry = tool_accuracy rx \<and>
               json_valid_row ry = json_valid_row rx \<and>
               exact_match_row ry = exact_match_row rx \<and>
               per_tool ry = per_tool rx \<and>
               (avg_coord_error ry = None \<longleftrightarrow> avg_coord_error rx = None) \<and>
               (py_sum (coord_errors ys) = py_sum (coord_errors xs) \<longrightarrow> ry = rx) \<and>
               ((\<forall>e \<in> set (coord_errors xs). 0 \<le> e) \<longrightarrow>
                  (\<forall>a. avg_coord_error rx = Some a \<or> avg_coord_error ry = Some a \<longrightarrow>
                     (let n = length (coord_errors xs);
                          mean = sum_list (coord_errors xs) / real n
                      in (1 - unit_roundoff) ^ Suc n * mean \<le> a \<and>
                         a \<le> (1 + unit_roundoff) ^ Suc n * mean)))) \<and>
            sorted (map (\<lambda>row. key_rank (fst row)) (per_tool rx)) \<and>
            distinct (map fst (per_tool rx)) \<and>
            sorted_wrt (\<lambda>a b. \<forall>s t. fst a = KStr s \<and> fst b = KStr t \<longrightarrow> s < t) (per_tool rx))"
proof -
  let ?avg = "\<lambda>zs. if coord_errors zs \<noteq> []
      then Some (float_div (py_sum (coord_errors zs)) (real (length (coord_errors zs))))
      else None"
  have ex: "(\<exists>ry. print_results ys = Inr ry) \<longleftrightarrow> (\<exists>rx. print_results xs = Inr rx)"
    using print_results_mset [OF assms] print_results_mset [OF assms [symmetric]] by blast
  have main: "\<exists>ry. print_results ys = Inr ry \<and>
      total_examples ry = total_examples rx \<and>
      tool_accuracy ry = tool_accuracy rx \<and>
      json_valid_row ry = json_valid_row rx \<and>
      exact_match_row ry = exact_match_row rx \<and>
      per_tool ry = per_tool rx \<and>
      (avg_coord_error ry = None \<longleftrightarrow> avg_coord_error rx = None) \<and>
      (py_sum (coord_errors ys) = py_sum (coord_errors xs) \<longrightarrow> ry = rx) \<and>
      ((\<forall>e \<in> set (coord_errors xs). 0 \<le> e) \<longrightarrow>
         (\<forall>a. avg_coord_error rx = Some a \<or> avg_coord_error ry = Some a \<longrightarrow>
            (let n = length (coord_errors xs);
                 mean = sum_list (coord_errors xs) / real n
             in (1 - unit_roundoff) ^ Suc n * mean \<le> a \<and>
                a \<le> (1 + unit_roundoff) ^ Suc n * mean)))"
    if rx: "print_results xs = Inr rx" for rx
  proof -
    define ry where "ry = rx\<lparr>avg_coord_error := ?avg ys\<rparr>"
    have py: "print_results ys = Inr ry"
      unfolding ry_def using assms rx by (rule print_results_mset)
    have ax: "avg_coord_error rx = ?avg xs"
      using rx by (rule print_results_avg)
    have ay: "avg_coord_error ry = ?avg ys"
      by (simp add: ry_def)
    have ms: "mset (coord_errors ys) = mset (coord_errors xs)"
      using assms by (simp add: coord_errors_def)
    have ll: "length (coord_errors ys) = length (coord_errors xs)"
      using ms by (rule mset_eq_length)
    have ne: "(coord_errors ys \<noteq> []) = (coord_errors xs \<noteq> [])"
      using ll by (metis length_0_conv)
    have ss: "sum_list (coord_errors ys) = sum_list (coord_errors xs)"
      using ms by (metis sum_mset_sum_list)
    have st: "set (coord_errors ys) = set (coord_errors xs)"
      using ms by (rule mset_eq_setD)
    have none: "avg_coord_error ry = None \<longleftrightarrow> avg_coord_error rx = None"
      by (simp add: ax ay ne)
    have same: "ry = rx" if "py_sum (coord_errors ys) = py_sum (coord_errors xs)"
    proof -
      from that have "?avg ys = ?avg xs"
        by (simp only: ll ne)
      then have "ry = rx\<lparr>avg_coord_error := avg_coord_error rx\<rparr>"
        by (simp only: ry_def ax)
      then show ?thesis
        by simp
    qed
    have bound: "(let n = length (coord_errors xs);
                      mean = sum_list (coord_errors xs) / real n
                  in (1 - unit_roundoff) ^ Suc n * mean \<le> a \<and>
                     a \<le> (1 + unit_roundoff) ^ Suc n * mean)"
      if nn: "\<forall>e \<in> set (coord_errors xs). 0 \<le> e"
        and a: "avg_coord_error rx = Some a \<or> avg_coord_error ry = Some a" for a
    proof -
      have nny: "\<forall>e \<in> set (coord_errors ys). 0 \<le> e"
        using nn by (simp only: st)
      from a have "a = float_div (py_sum (coord_errors xs)) (real (length (coord_errors xs))) \<or>
          a = float_div (py_sum (coord_errors ys)) (real (length (coord_errors ys)))"
        by (auto simp: ax ay split: if_splits)
      then show ?thesis
        using mean_bounds [OF nn] mean_bounds [OF nny]
        by (auto simp only: Let_def ll ss)
    qed
    from py none same bound show ?thesis
      by (intro exI [of _ ry] conjI impI allI) (simp_all add: ry_def)
  qed
  have order: "sorted (map (\<lambda>row. key_rank (fst row)) (per_tool rx)) \<and>
      distinct (map fst (per_tool rx)) \<and>
      sorted_wrt (\<lambda>a b. \<forall>s t. fst a = KStr s \<and> fst b = KStr t \<longrightarrow> s < t) (per_tool rx)"
    if "print_results xs = Inr rx" for rx
    using per_tool_sorted [OF that] string_keys_ascending [OF per_tool_sorted [OF that]]
    by blast
  from ex main order show ?thesis
    by blast
qed

text \<open>
  The batch of three samples in another order: the errors 1 and 2 add up exactly, and the
  report is the same.
\<close>

theorem aggregation_order_insensitive_witness:
  "print_results [sample_zoom, sample_hit, sample_miss] = Inr report_three \<and>
   (1 - unit_roundoff) ^ 3 * (3 / 2) \<le> 3 / 2 \<and> 3 / 2 \<le> (1 + unit_roundoff) ^ 3 * (3 / 2) \<and>
   sorted (map (\<lambda>row. key_rank (fst row)) (per_tool report_three)) \<and>
   distinct (map fst (per_tool report_three)) \<and>
   sorted_wrt (\<lambda>a b. \<forall>s t. fst a = KStr s \<and> fst b = KStr t \<longrightarrow> s < t)
     (per_tool report_three)"
proof -
  let ?xs = "[sample_hit, sample_miss, sample_zoom]" and ?ys = "[sample_zoom, sample_hit, sample_miss]"
  have "mset ?ys = mset ?xs"
    by simp
  from aggregation_order_insensitive [OF this, THEN conjunct2, rule_format, OF print_results_three]
  obtain ry where py: "print_results ?ys = Inr ry"
    and same: "py_sum (coord_errors ?ys) = py_sum (coord_errors ?xs) \<longrightarrow> ry = report_three"
    and bound: "(\<forall>e \<in> set (coord_errors ?xs). 0 \<le> e) \<longrightarrow>
       (\<forall>a. avg_coord_error report_three = Some a \<or> avg_coord_error ry = Some a \<longrightarrow>
          (let n = length (coord_errors ?xs);
               mean = sum_list (coord_errors ?xs) / real n
           in (1 - unit_roundoff) ^ Suc n * mean \<le> a \<and> a \<le> (1 + unit_roundoff) ^ Suc n * mean))"
    and order: "sorted (map (\<lambda>row. key_rank (fst row)) (per_tool report_three))"
      "distinct (map fst (per_tool report_three))"
      "sorted_wrt (\<lambda>a b. \<forall>s t. fst a = KStr s \<and> fst b = KStr t \<longrightarrow> s < t) (per_tool report_three)"
    by blast
  from same have "ry = report_three"
    by (simp only: coord_errors_three simp_thms)
  with py have 1: "print_results ?ys = Inr report_three"
    by simp
  have nn: "\<forall>e \<in> set (coord_errors ?xs). 0 \<le> e"
    by (simp add: coord_errors_three)
  have "avg_coord_error report_three = Some (3 / 2) \<or> avg_coord_error ry = Some (3 / 2)"
    by (simp add: report_three_def)
  with bound nn have "let n = length (coord_errors ?xs);
        mean = sum_list (coord_errors ?xs) / real n
      in (1 - unit_roundoff) ^ Suc n * mean \<le> 3 / 2 \<and> 3 / 2 \<le> (1 + unit_roundoff) ^ Suc n * mean"
    by blast
  then have "(1 - unit_roundoff) ^ 3 * (3 / 2) \<le> 3 / 2 \<and> 3 / 2 \<le> (1 + unit_roundoff) ^ 3 * (3 / 2)"
    by (simp add: coord_errors_three Let_def eval_nat_numeral)
  with 1 order show ?thesis
    by blast
qed

text \<open>
  The claim as stated makes the mean coordinate error the same for every order. With the
  errors \<open>0.1\<close>, \<open>0.2\<close>, \<open>0.3\<close> the sum from the left is \<open>0.6000000000000001\<close> and the mean
  \<open>0.20000000000000004\<close>; in the reverse order the sum is \<open>0.6\<close> and the mean
  \<open>0.19999999999999998\<close>.
\<close>

theorem float_sum_order_counterexample:
  "mset [sample_err (3 / 10), sample_err (2 / 10), sample_err (1 / 10)] =
     mset [sample_err (1 / 10), sample_err (2 / 10), sample_err (3 / 10)] \<and>
   print_results [sample_err (1 / 10), sample_err (2 / 10), sample_err (3 / 10)] =
     Inr \<lparr>total_examples = 3, tool_accuracy = (3, 100), json_valid_row = (3, 100),
          exact_match_row = (3, 100),
          avg_coord_error = Some (7205759403792795 / 36028797018963968),
          per_tool = [(KStr ''flyTo'', 3, 3, 100)]\<rparr> \<and>
   print_results [sample_err (3 / 10), sample_err (2 / 10), sample_err (1 / 10)] =
     Inr \<lparr>total_examples = 3, tool_accuracy = (3, 100), json_valid_row = (3, 100),
          exact_match_row = (3, 100),
          avg_coord_error = Some (7205759403792793 / 36028797018963968),
          per_tool = [(KStr ''flyTo'', 3, 3, 100)]\<rparr>"
proof -
  have "print_results [sample_err (1 / 10), sample_err (2 / 10), sample_err (3 / 10)] =
     Inr \<lparr>total_examples = 3, tool_accuracy = (3, 100), json_valid_row = (3, 100),
          exact_match_row = (3, 100),
          avg_coord_error = Some (7205759403792795 / 36028797018963968),
          per_tool = [(KStr ''flyTo'', 3, 3, 100)]\<rparr>"
    by code_simp
  moreover have "print_results [sample_err (3 / 10), sample_err (2 / 10), sample_err (1 / 10)] =
     Inr \<lparr>total_examples = 3, tool_accuracy = (3, 100), json_valid_row = (3, 100),
          exact_match_row = (3, 100),
          avg_coord_error = Some (7205759403792793 / 36028797018963968),
          per_tool = [(KStr ''flyTo'', 3, 3, 100)]\<rparr>"
    by code_simp
  ultimately show ?thesis
    by simp
qed

end
